theory Spec2Isabelle
  imports Main "HOL-Library.Log_Nat" "HOL-Library.Word"
begin

section \<open>Python floats\<close>

text \<open>
  A Python \<^verbatim>\<open>float\<close> and a NumPy \<^verbatim>\<open>float64\<close> are IEEE-754 binary64 numbers. A finite
  one is modelled by its exact rational value, the infinities and NaN are constructors of
  their own. The sign of a zero is not modelled: no operation of \<^verbatim>\<open>amdahl.py\<close> observes it
  (Python's \<^verbatim>\<open>/\<close> raises on either zero, and every zero divisor that the array code can meet
  is a positive zero).
\<close>

datatype pyfloat = Fin rat | PInf | NInf | NaN

text \<open>\<open>ilog2 x\<close> is \<open>\<lfloor>log\<^sub>2 x\<rfloor>\<close> for a positive rational \<open>x\<close>, computed on bit lengths.\<close>

definition ilog2 :: "rat \<Rightarrow> int" where
  "ilog2 x = (if 1 \<le> x then bitlen \<lfloor>x\<rfloor> - 1 else - bitlen (\<lceil>1 / x\<rceil> - 1))"

text \<open>
  \<open>fexp x\<close> is the exponent of the unit in the last place of \<open>x\<close>: 53 significant bits, and
  the subnormal spacing \<open>2\<^sup>-\<^sup>1\<^sup>0\<^sup>7\<^sup>4\<close> below \<open>2\<^sup>-\<^sup>1\<^sup>0\<^sup>2\<^sup>2\<close>.
\<close>

definition fexp :: "rat \<Rightarrow> int" where
  "fexp x = (if x = 0 then - 1074 else max (ilog2 \<bar>x\<bar> - 52) (- 1074))"

text \<open>Rounding to the nearest integer, a tie going to the even neighbour.\<close>

definition rne :: "rat \<Rightarrow> int" where
  "rne x = (let n = \<lfloor>x\<rfloor>; r = x - of_int n in
     if r < 1 / 2 then n else if 1 / 2 < r then n + 1 else if even n then n else n + 1)"

text \<open>\<open>rndv x\<close> rounds \<open>x\<close> to 53 bits with an unbounded exponent above; \<open>rnd\<close> adds
  the overflow to an infinity.\<close>

definition rndv :: "rat \<Rightarrow> rat" where
  "rndv x = of_int (rne (x / 2 powi fexp x)) * 2 powi fexp x"

definition rnd :: "rat \<Rightarrow> pyfloat" where
  "rnd x = (let y = rndv x in
     if 2 ^ 1024 \<le> y then PInf else if y \<le> - (2 ^ 1024) then NInf else Fin y)"

text \<open>The rationals that are binary64 values: multiples of their own unit in the last
  place, below the overflow threshold.\<close>

definition grid :: "rat \<Rightarrow> bool" where
  "grid x \<longleftrightarrow> (\<exists>m::int. x = of_int m * 2 powi fexp x)"

definition is_double :: "rat \<Rightarrow> bool" where
  "is_double x \<longleftrightarrow> rnd x = Fin x"

fun is_float :: "pyfloat \<Rightarrow> bool" where
  "is_float (Fin x) = is_double x"
| "is_float _ = True"

subsection \<open>The IEEE operations\<close>

fun fneg :: "pyfloat \<Rightarrow> pyfloat" where
  "fneg (Fin x) = Fin (- x)"
| "fneg PInf = NInf"
| "fneg NInf = PInf"
| "fneg NaN = NaN"

fun fadd :: "pyfloat \<Rightarrow> pyfloat \<Rightarrow> pyfloat" where
  "fadd (Fin x) (Fin y) = rnd (x + y)"
| "fadd NaN _ = NaN"
| "fadd _ NaN = NaN"
| "fadd PInf NInf = NaN"
| "fadd NInf PInf = NaN"
| "fadd PInf _ = PInf"
| "fadd _ PInf = PInf"
| "fadd NInf _ = NInf"
| "fadd _ NInf = NInf"

definition fsub :: "pyfloat \<Rightarrow> pyfloat \<Rightarrow> pyfloat" where
  "fsub a b = fadd a (fneg b)"

text \<open>Division as the hardware and NumPy do it: a zero divisor gives an infinity or NaN.\<close>

fun fdiv :: "pyfloat \<Rightarrow> pyfloat \<Rightarrow> pyfloat" where
  "fdiv NaN _ = NaN"
| "fdiv _ NaN = NaN"
| "fdiv (Fin x) (Fin y) =
     (if y = 0 then (if x = 0 then NaN else if 0 < x then PInf else NInf) else rnd (x / y))"
| "fdiv (Fin x) _ = Fin 0"
| "fdiv PInf (Fin y) = (if 0 \<le> y then PInf else NInf)"
| "fdiv NInf (Fin y) = (if 0 \<le> y then NInf else PInf)"
| "fdiv _ _ = NaN"

text \<open>Python's \<^verbatim>\<open><=\<close> on floats: every comparison with NaN is false.\<close>

fun fle :: "pyfloat \<Rightarrow> pyfloat \<Rightarrow> bool" where
  "fle NaN _ = False"
| "fle _ NaN = False"
| "fle NInf _ = True"
| "fle _ PInf = True"
| "fle (Fin x) (Fin y) = (x \<le> y)"
| "fle _ _ = False"

subsection \<open>The Python operators\<close>

datatype error = ValueError | OverflowError | ZeroDivisionError

text \<open>An \<^verbatim>\<open>int\<close> operand of a float operator is converted first; the conversion rounds
  to nearest and raises \<^verbatim>\<open>OverflowError\<close> when the result is not finite.\<close>

definition float_of_int :: "int \<Rightarrow> error + pyfloat" where
  "float_of_int n = (case rnd (of_int n) of Fin y \<Rightarrow> Inr (Fin y) | _ \<Rightarrow> Inl OverflowError)"

text \<open>\<^verbatim>\<open>a / b\<close> on two floats raises \<^verbatim>\<open>ZeroDivisionError\<close> on a zero divisor.\<close>

definition float_truediv :: "pyfloat \<Rightarrow> pyfloat \<Rightarrow> error + pyfloat" where
  "float_truediv a b = (if b = Fin 0 then Inl ZeroDivisionError else Inr (fdiv a b))"

text \<open>\<^verbatim>\<open>a / n\<close> for a float \<open>a\<close> and an int \<open>n\<close>.\<close>

definition float_truediv_int :: "pyfloat \<Rightarrow> int \<Rightarrow> error + pyfloat" where
  "float_truediv_int a n =
     (case float_of_int n of Inl e \<Rightarrow> Inl e | Inr b \<Rightarrow> float_truediv a b)"

text \<open>The test \<^verbatim>\<open>0 <= f <= 1\<close>; the int constants compare by value.\<close>

definition in_unit :: "pyfloat \<Rightarrow> bool" where
  "in_unit f \<longleftrightarrow> fle (Fin 0) f \<and> fle f (Fin 1)"

text \<open>Sequencing of calls that may raise: the first error ends the computation.\<close>

definition bind_result :: "'e + 'a \<Rightarrow> ('a \<Rightarrow> 'e + 'b) \<Rightarrow> 'e + 'b" where
  "bind_result r k = (case r of Inl e \<Rightarrow> Inl e | Inr v \<Rightarrow> k v)"

section \<open>The computation module \<^verbatim>\<open>amdahl.py\<close>\<close>

definition calculate_speedup :: "pyfloat \<Rightarrow> int \<Rightarrow> error + pyfloat" where
  "calculate_speedup f p =
     (if \<not> in_unit f then Inl ValueError
      else if p < 1 then Inl ValueError
      else if f = Fin 1 then Inr (Fin 1)
      else case float_truediv_int (fsub (Fin 1) f) p of
             Inl e \<Rightarrow> Inl e
           | Inr q \<Rightarrow> float_truediv (Fin 1) (fadd f q))"

definition calculate_efficiency :: "pyfloat \<Rightarrow> int \<Rightarrow> error + pyfloat" where
  "calculate_efficiency f p =
     (case calculate_speedup f p of
        Inl e \<Rightarrow> Inl e
      | Inr speedup \<Rightarrow> float_truediv_int speedup p)"

definition calculate_execution_time_ratio :: "pyfloat \<Rightarrow> int \<Rightarrow> error + pyfloat" where
  "calculate_execution_time_ratio f p =
     (case calculate_speedup f p of
        Inl e \<Rightarrow> Inl e
      | Inr speedup \<Rightarrow> float_truediv (Fin 1) speedup)"

text \<open>
  The arrays of \<^verbatim>\<open>simulate_scaling\<close> are lists. NumPy refuses an array whose size in bytes
  does not fit a signed 64-bit integer with \<^verbatim>\<open>ValueError\<close> (``array is too big''); apart from
  that limit, allocation is assumed to succeed. The elementwise operators of NumPy are the
  IEEE operations and raise nothing.

  \<^verbatim>\<open>np.arange(start, stop, dtype=np.int32)\<close> computes its length \<^verbatim>\<open>(stop - start) / 1\<close> as a
  float first: the true division of Python raises \<^verbatim>\<open>OverflowError\<close> when the quotient is
  no finite float, a length beyond \<open>2\<^sup>6\<^sup>3\<close> is refused with \<^verbatim>\<open>ValueError\<close> (``Maximum allowed
  size exceeded''), and the length \<open>2\<^sup>6\<^sup>3\<close> itself passes that test, overflows in the cast to a
  64-bit integer and gives the empty array. The cells are 32 bits wide, so a count is stored
  modulo \<open>2\<^sup>3\<^sup>2\<close>.
\<close>

record scaling =
  processors :: "32 word list"
  speedups :: "pyfloat list"
  efficiencies :: "pyfloat list"
  time_ratios :: "pyfloat list"

definition np_arange_int32 :: "int \<Rightarrow> int \<Rightarrow> error + 32 word list" where
  "np_arange_int32 start stop =
     (case rnd (of_int (stop - start)) of
        Fin len \<Rightarrow>
          if 2 ^ 63 < len \<or> len < - (2 ^ 63) then Inl ValueError
          else if len = 2 ^ 63 \<or> stop - start \<le> 0 then Inr []
          else if 2 ^ 61 \<le> stop - start then Inl ValueError
          else Inr (map word_of_int [start..stop - 1])
      | _ \<Rightarrow> Inl OverflowError)"

text \<open>\<^verbatim>\<open>np.ones(n, dtype=np.float64)\<close>, for \<open>n \<ge> 0\<close>: eight bytes a cell.\<close>

definition np_ones :: "int \<Rightarrow> error + pyfloat list" where
  "np_ones n = (if 2 ^ 60 \<le> n then Inl ValueError else Inr (replicate (nat n) (Fin 1)))"

text \<open>The conversion of one cell to \<^verbatim>\<open>float64\<close> is exact; \<^verbatim>\<open>astype\<close> builds a new array.\<close>

definition astype_float64 :: "32 word \<Rightarrow> pyfloat" where
  "astype_float64 w = Fin (of_int (sint w))"

definition np_astype_float64 :: "32 word list \<Rightarrow> error + pyfloat list" where
  "np_astype_float64 ws =
     (if 2 ^ 60 \<le> length ws then Inl ValueError else Inr (map astype_float64 ws))"

definition simulate_scaling :: "pyfloat \<Rightarrow> int \<Rightarrow> error + scaling" where
  "simulate_scaling f max_procs =
     (if \<not> in_unit f then Inl ValueError
      else if max_procs < 1 then Inl ValueError
      else
        bind_result (np_arange_int32 1 (max_procs + 1)) (\<lambda>procs.
        bind_result
          (if f = Fin 1 then np_ones max_procs
           else bind_result (np_astype_float64 procs) (\<lambda>fprocs.
                  Inr (map (\<lambda>p. fdiv (Fin 1) (fadd f (fdiv (fsub (Fin 1) f) p))) fprocs)))
          (\<lambda>sp.
        Inr \<lparr>processors = procs, speedups = sp,
             efficiencies = map2 (\<lambda>s w. fdiv s (astype_float64 w)) sp procs,
             time_ratios = map (fdiv (Fin 1)) sp\<rparr>)))"

section \<open>The order of the operations\<close>





text \<open>
  The value of the variable \<^verbatim>\<open>denominator\<close> of \<^verbatim>\<open>calculate_speedup\<close>, for the fraction
  \<open>x\<close> and the processor count already converted to the float \<open>ph\<close>: three roundings, of
  \<^verbatim>\<open>1 - f\<close>, of the quotient and of the sum.
\<close>

definition denominator :: "rat \<Rightarrow> rat \<Rightarrow> rat" where
  "denominator x ph = rndv (x + rndv (rndv (1 - x) / ph))"

text \<open>
  Accuracy is counted in roundings: \<open>within_ulps k v t\<close> says that \<open>v\<close> and \<open>t\<close> differ by at
  most the factor \<open>(1 + eps)\<^sup>k\<close>, where \<open>eps = 2\<^sup>-\<^sup>5\<^sup>3 / (1 - 2\<^sup>-\<^sup>5\<^sup>3)\<close> bounds the relative error of
  one rounding in the normal range.
\<close>

definition eps :: rat where
  "eps = 1 / (2 ^ 53 - 1)"

definition within_ulps :: "nat \<Rightarrow> rat \<Rightarrow> rat \<Rightarrow> bool" where
  "within_ulps k v t \<longleftrightarrow> v \<le> t * (1 + eps) ^ k \<and> t \<le> v * (1 + eps) ^ k"

text \<open>The processor counts \<open>1, \<dots>, n\<close> as they are stored in 32-bit cells.\<close>

definition counts :: "int \<Rightarrow> 32 word list" where
  "counts n = map word_of_int [1..n]"

section \<open>The command line \<^verbatim>\<open>cli.py\<close>\<close>

text \<open>
  The values that an option or a YAML document can hold, and the exceptions that
  \<^verbatim>\<open>main\<close> tells apart. \<^verbatim>\<open>SystemExit\<close> carries the exit status; it is not an
  \<^verbatim>\<open>Exception\<close>, so the handlers of \<^verbatim>\<open>main\<close> let it pass.
\<close>

datatype pyval = PNone | PBool bool | PInt int | PFloat pyfloat | PStr string


















section \<open>Properties of the rounding\<close>

lemma two_powi_less_cancel: "(2::rat) powi a < 2 powi b \<Longrightarrow> a < b"
  by (metis linorder_not_le one_le_numeral power_int_increasing)

lemma two_powi_le_iff: "(2::rat) powi a \<le> 2 powi b \<longleftrightarrow> a \<le> b"
  by (metis linorder_not_le one_le_numeral one_less_numeral_iff power_int_increasing
      power_int_strict_increasing semiring_norm(76))

lemma ilog2_bounds:
  assumes "0 < x"
  shows "2 powi ilog2 x \<le> x" and "x < 2 powi (ilog2 x + 1)"
proof -
  have "2 powi ilog2 x \<le> x \<and> x < 2 powi (ilog2 x + 1)"
  proof (cases "1 \<le> x")
    case True
    define n where "n = \<lfloor>x\<rfloor>"
    have n1: "1 \<le> n" using True by (simp add: n_def le_floor_iff)
    then have n0: "0 < n" by simp
    have b1: "1 \<le> bitlen n" using n0 bitlen_eq_zero_iff [of n] bitlen_nonneg [of n] by linarith
    have il: "ilog2 x = bitlen n - 1" using True by (simp add: ilog2_def n_def)
    from bitlen_bounds [OF n0]
    have lo: "2 ^ nat (bitlen n - 1) \<le> n" and hi: "n < 2 ^ nat (bitlen n)" by simp_all
    have "(2::rat) powi (bitlen n - 1) = of_int (2 ^ nat (bitlen n - 1))"
      using b1 by (simp add: power_int_def)
    also have "\<dots> \<le> of_int n" using lo by (simp only: of_int_le_iff)
    also have "\<dots> \<le> x" by (simp add: n_def)
    finally have A: "2 powi ilog2 x \<le> x" by (simp add: il)
    have "n + 1 \<le> 2 ^ nat (bitlen n)" using hi by simp
    then have "(of_int (n + 1) :: rat) \<le> of_int (2 ^ nat (bitlen n))"
      by (simp only: of_int_le_iff)
    moreover have "x < of_int (n + 1)" unfolding n_def by linarith
    moreover have "(2::rat) powi (bitlen n) = of_int (2 ^ nat (bitlen n))"
      using b1 by (simp add: power_int_def)
    ultimately have "x < 2 powi (ilog2 x + 1)" by (simp add: il)
    with A show ?thesis by simp
  next
    case False
    then have x1: "x < 1" by simp
    define c where "c = \<lceil>1 / x\<rceil>"
    define k where "k = bitlen (c - 1)"
    have "1 < 1 / x" using assms x1 by (simp add: field_simps)
    then have c2: "2 \<le> c" unfolding c_def by (simp add: le_ceiling_iff)
    then have c0: "0 < c - 1" by simp
    have k1: "1 \<le> k" using c0 bitlen_eq_zero_iff [of "c - 1"] bitlen_nonneg [of "c - 1"]
      unfolding k_def by linarith
    have il: "ilog2 x = - k" using False by (simp add: ilog2_def k_def c_def)
    from bitlen_bounds [OF c0]
    have lo: "2 ^ nat (k - 1) \<le> c - 1" and hi: "c - 1 < 2 ^ nat k" by (simp_all add: k_def)
    have up: "1 / x \<le> of_int c" by (simp add: c_def)
    have "c \<le> 2 ^ nat k" using hi by simp
    then have "(of_int c :: rat) \<le> of_int (2 ^ nat k)" by (simp only: of_int_le_iff)
    then have "(of_int c :: rat) \<le> 2 ^ nat k" by simp
    with up have "1 / x \<le> 2 ^ nat k" by linarith
    then have "1 / 2 ^ nat k \<le> x" using assms by (simp add: field_simps)
    moreover have "(2::rat) powi (- k) = 1 / 2 ^ nat k"
      using k1 by (simp add: power_int_def field_simps)
    ultimately have A: "2 powi ilog2 x \<le> x" by (simp add: il)
    have "of_int (c - 1) < 1 / x" unfolding c_def by linarith
    moreover have "(of_int (2 ^ nat (k - 1)) :: rat) \<le> of_int (c - 1)"
      using lo by (simp only: of_int_le_iff)
    moreover have "(of_int (2 ^ nat (k - 1)) :: rat) = 2 ^ nat (k - 1)" by simp
    ultimately have "2 ^ nat (k - 1) < 1 / x" by linarith
    then have B0: "x < 1 / 2 ^ nat (k - 1)" using assms by (simp add: field_simps)
    have "(2::rat) powi (- k + 1) = 1 / 2 ^ nat (k - 1)"
    proof (cases "k = 1")
      case True then show ?thesis by simp
    next
      case False
      then have "- k + 1 < 0" using k1 by simp
      then show ?thesis by (simp add: power_int_def field_simps nat_diff_distrib)
    qed
    with B0 have "x < 2 powi (ilog2 x + 1)" by (simp add: il)
    with A show ?thesis by simp
  qed
  then show "2 powi ilog2 x \<le> x" and "x < 2 powi (ilog2 x + 1)" by simp_all
qed

lemma ilog2_unique:
  assumes "2 powi k \<le> x" and "x < 2 powi (k + 1)"
  shows "ilog2 x = k"
proof -
  have x0: "0 < x" using assms(1) by (meson less_le_trans zero_less_numeral zero_less_power_int)
  have "(2::rat) powi ilog2 x < 2 powi (k + 1)"
    using ilog2_bounds(1) [OF x0] assms(2) by simp
  then have a: "ilog2 x < k + 1" by (rule two_powi_less_cancel)
  have "(2::rat) powi k < 2 powi (ilog2 x + 1)"
    using ilog2_bounds(2) [OF x0] assms(1) by simp
  then have "k < ilog2 x + 1" by (rule two_powi_less_cancel)
  with a show ?thesis by simp
qed

lemma ilog2_mono:
  assumes "0 < x" and "x \<le> y"
  shows "ilog2 x \<le> ilog2 y"
proof -
  have y0: "0 < y" using assms by simp
  have "(2::rat) powi ilog2 x < 2 powi (ilog2 y + 1)"
    using ilog2_bounds(1) [OF assms(1)] ilog2_bounds(2) [OF y0] assms(2) by simp
  then have "ilog2 x < ilog2 y + 1" by (rule two_powi_less_cancel)
  then show ?thesis by simp
qed

lemma rne_lo: "x - of_int \<lfloor>x\<rfloor> < 1 / 2 \<Longrightarrow> rne x = \<lfloor>x\<rfloor>"
  by (simp add: rne_def Let_def)

lemma rne_hi: "1 / 2 < x - of_int \<lfloor>x\<rfloor> \<Longrightarrow> rne x = \<lfloor>x\<rfloor> + 1"
  by (simp add: rne_def Let_def)

lemma rne_cases: "rne x = \<lfloor>x\<rfloor> \<or> rne x = \<lfloor>x\<rfloor> + 1"
  by (simp add: rne_def Let_def)

lemma rne_of_int [simp]: "rne (of_int n) = n"
  by (simp add: rne_def Let_def)

lemma rne_err: "\<bar>of_int (rne x) - x\<bar> \<le> 1 / 2"
proof -
  have "0 \<le> x - of_int \<lfloor>x\<rfloor>" "x - of_int \<lfloor>x\<rfloor> < 1" by linarith+
  then show ?thesis by (auto simp add: rne_def Let_def abs_le_iff)
qed

lemma rne_mono:
  assumes "x \<le> y"
  shows "rne x \<le> rne y"
proof (cases "\<lfloor>x\<rfloor> = \<lfloor>y\<rfloor>")
  case True
  then have "x - of_int \<lfloor>x\<rfloor> \<le> y - of_int \<lfloor>y\<rfloor>" using assms by simp
  then show ?thesis using True by (auto simp add: rne_def Let_def)
next
  case False
  then have "\<lfloor>x\<rfloor> + 1 \<le> \<lfloor>y\<rfloor>" using floor_mono [OF assms] by linarith
  then show ?thesis using rne_cases [of x] rne_cases [of y] by linarith
qed

lemma rne_nearest:
  assumes "\<bar>x - of_int m\<bar> < 1 / 2"
  shows "rne x = m"
proof (cases "of_int m \<le> x")
  case True
  have "x < of_int m + 1" using assms by linarith
  with True have f: "\<lfloor>x\<rfloor> = m" by (simp add: floor_unique)
  have "x - of_int m < 1 / 2" using assms by linarith
  then show ?thesis using f by (simp add: rne_lo)
next
  case False
  have lo: "of_int m - 1 / 2 < x" using assms by linarith
  then have "of_int (m - 1) \<le> x" by simp
  moreover have "x < of_int (m - 1) + 1" using False by simp
  ultimately have f: "\<lfloor>x\<rfloor> = m - 1" by (rule floor_unique)
  have "1 / 2 < x - of_int (m - 1)" using lo by simp
  then show ?thesis using f by (simp add: rne_hi)
qed

lemma two_powi_pos [simp]: "0 < (2::rat) powi k"
  by simp

lemma two_powi_add: "(2::rat) powi (a + b) = 2 powi a * 2 powi b"
  by (simp add: power_int_add)

lemma two_powi_nat: "0 \<le> d \<Longrightarrow> (2::rat) powi d = of_int (2 ^ nat d)"
  by (simp add: power_int_def)

lemma fexp_ge: "- 1074 \<le> fexp x"
  by (simp add: fexp_def)

lemma fexp_mono:
  assumes "\<bar>x\<bar> \<le> \<bar>y\<bar>"
  shows "fexp x \<le> fexp y"
proof (cases "x = 0")
  case True
  then show ?thesis by (simp add: fexp_def)
next
  case False
  then have "0 < \<bar>x\<bar>" by simp
  then have "ilog2 \<bar>x\<bar> \<le> ilog2 \<bar>y\<bar>" using assms by (rule ilog2_mono)
  moreover have "y \<noteq> 0" using False assms by auto
  ultimately show ?thesis using False by (simp add: fexp_def)
qed

lemma abs_lt_fexp: "\<bar>x\<bar> < 2 powi (fexp x + 53)"
proof (cases "x = 0")
  case True
  then show ?thesis by simp
next
  case False
  then have "0 < \<bar>x\<bar>" by simp
  then have "\<bar>x\<bar> < 2 powi (ilog2 \<bar>x\<bar> + 1)" by (rule ilog2_bounds(2))
  also have "\<dots> \<le> 2 powi (fexp x + 53)"
    using False by (simp add: two_powi_le_iff fexp_def)
  finally show ?thesis .
qed

lemma fexp_le:
  assumes "\<bar>y\<bar> < 2 powi (k + 53)" and "- 1074 \<le> k"
  shows "fexp y \<le> k"
proof (cases "y = 0")
  case True
  then show ?thesis using assms(2) by (simp add: fexp_def)
next
  case False
  then have "0 < \<bar>y\<bar>" by simp
  then have "2 powi ilog2 \<bar>y\<bar> \<le> \<bar>y\<bar>" by (rule ilog2_bounds(1))
  then have "(2::rat) powi ilog2 \<bar>y\<bar> < 2 powi (k + 53)" using assms(1) by simp
  then have "ilog2 \<bar>y\<bar> < k + 53" by (rule two_powi_less_cancel)
  then show ?thesis using False assms(2) by (simp add: fexp_def)
qed

lemma fexp_normal:
  assumes "- 1074 < fexp x"
  shows "fexp x = ilog2 \<bar>x\<bar> - 52" and "2 powi (fexp x + 52) \<le> \<bar>x\<bar>"
proof -
  have nz: "x \<noteq> 0" using assms by (auto simp add: fexp_def)
  then show e: "fexp x = ilog2 \<bar>x\<bar> - 52" using assms by (simp add: fexp_def split: if_splits)
  have "0 < \<bar>x\<bar>" using nz by simp
  then have "2 powi ilog2 \<bar>x\<bar> \<le> \<bar>x\<bar>" by (rule ilog2_bounds(1))
  then show "2 powi (fexp x + 52) \<le> \<bar>x\<bar>" by (simp add: e)
qed

lemma ilog2_two_powi [simp]: "ilog2 (2 powi k) = k"
  by (rule ilog2_unique) (simp_all add: two_powi_le_iff power_int_strict_increasing)

lemma fexp_of_normal:
  assumes "2 powi (- 1022) \<le> \<bar>x\<bar>"
  shows "fexp x = ilog2 \<bar>x\<bar> - 52"
proof -
  have "0 < (2::rat) powi (- 1022)" by (rule two_powi_pos)
  then have "ilog2 (2 powi (- 1022)) \<le> ilog2 \<bar>x\<bar>" using assms by (rule ilog2_mono)
  then have "- 1022 \<le> ilog2 \<bar>x\<bar>" by (simp only: ilog2_two_powi)
  moreover have "x \<noteq> 0" using assms \<open>0 < (2::rat) powi (- 1022)\<close> by auto
  ultimately show ?thesis by (simp add: fexp_def)
qed


lemma rndv_err: "\<bar>rndv x - x\<bar> \<le> 2 powi fexp x / 2"
proof -
  define P where "P = (2::rat) powi fexp x"
  have P0: "0 < P" by (simp add: P_def)
  have "rndv x - x = (of_int (rne (x / P)) - x / P) * P"
    using P0 by (simp add: rndv_def P_def field_simps)
  then have "\<bar>rndv x - x\<bar> = \<bar>of_int (rne (x / P)) - x / P\<bar> * P"
    using P0 by (simp add: abs_mult)
  also have "\<dots> \<le> (1 / 2) * P"
    using P0 rne_err [of "x / P"] by (intro mult_right_mono) simp_all
  finally show ?thesis by (simp add: P_def)
qed

lemma rndv_rel_err:
  assumes "2 powi (- 1022) \<le> \<bar>x\<bar>"
  shows "\<bar>rndv x - x\<bar> \<le> \<bar>x\<bar> / 2 ^ 53"
proof -
  have e: "fexp x = ilog2 \<bar>x\<bar> - 52" using assms by (rule fexp_of_normal)
  have x0: "0 < \<bar>x\<bar>" using assms two_powi_pos [of "- 1022"] by linarith
  have "(2::rat) powi fexp x / 2 = 2 powi (ilog2 \<bar>x\<bar> + (- 53))"
    unfolding e by (simp add: power_int_diff)
  also have "\<dots> = 2 powi ilog2 \<bar>x\<bar> / 2 ^ 53"
    unfolding two_powi_add by (simp add: power_int_minus field_simps)
  also have "\<dots> \<le> \<bar>x\<bar> / 2 ^ 53"
    using ilog2_bounds(1) [OF x0] by (simp add: divide_right_mono)
  finally show ?thesis using rndv_err [of x] by linarith
qed

lemma rndv_le_own:
  assumes "x \<le> of_int m * 2 powi fexp x"
  shows "rndv x \<le> of_int m * 2 powi fexp x"
proof -
  have "x / 2 powi fexp x \<le> of_int m" using assms by (simp add: field_simps)
  then have "rne (x / 2 powi fexp x) \<le> rne (of_int m)" by (rule rne_mono)
  then have "(of_int (rne (x / 2 powi fexp x)) :: rat) \<le> of_int m" by simp
  then show ?thesis unfolding rndv_def by (simp add: mult_right_mono)
qed

lemma rndv_ge_own:
  assumes "of_int m * 2 powi fexp x \<le> x"
  shows "of_int m * 2 powi fexp x \<le> rndv x"
proof -
  have "of_int m \<le> x / 2 powi fexp x" using assms by (simp add: field_simps)
  then have "rne (of_int m) \<le> rne (x / 2 powi fexp x)" by (rule rne_mono)
  then have "(of_int m :: rat) \<le> of_int (rne (x / 2 powi fexp x))" by simp
  then show ?thesis unfolding rndv_def by (simp add: mult_right_mono)
qed

lemma rndv_exact:
  assumes "grid x"
  shows "rndv x = x"
proof -
  obtain m :: int where m: "x = of_int m * 2 powi fexp x" using assms by (auto simp add: grid_def)
  have "rndv x \<le> of_int m * 2 powi fexp x" using m by (intro rndv_le_own) simp
  moreover have "of_int m * 2 powi fexp x \<le> rndv x" using m by (intro rndv_ge_own) simp
  ultimately show ?thesis using m by simp
qed

lemma grid_finer:
  assumes "(x::rat) = of_int m * 2 powi e" and "e' \<le> e"
  shows "\<exists>n::int. x = of_int n * 2 powi e'"
proof -
  have "(2::rat) powi e = 2 powi ((e - e') + e')" by simp
  also have "\<dots> = 2 powi (e - e') * 2 powi e'" by (rule two_powi_add)
  also have "\<dots> = of_int (2 ^ nat (e - e')) * 2 powi e'"
    using assms(2) by (simp add: two_powi_nat)
  finally have "x = of_int (m * 2 ^ nat (e - e')) * 2 powi e'"
    using assms(1) by simp
  then show ?thesis ..
qed

lemma gridI:
  assumes "(x::rat) = of_int m * 2 powi e" and "fexp x \<le> e"
  shows "grid x"
  unfolding grid_def using grid_finer [OF assms] .

lemma grid_0 [simp]: "grid 0"
  by (rule gridI [of _ 0 0]) (simp_all add: fexp_def)

lemma grid_two_powi:
  assumes "- 1074 \<le> k"
  shows "grid (2 powi k)"
proof (rule gridI [of _ 1 k])
  show "(2::rat) powi k = of_int 1 * 2 powi k" by simp
  have "\<bar>(2::rat) powi k\<bar> < 2 powi (k + 53)" by (simp add: power_int_strict_increasing)
  then show "fexp (2 powi k) \<le> k" using assms by (rule fexp_le)
qed

lemma rndv_grid: "grid (rndv x)"
proof -
  define e where "e = fexp x"
  define P where "P = (2::rat) powi e"
  define m where "m = rne (x / P)"
  have P0: "0 < P" by (simp add: P_def)
  have e_ge: "- 1074 \<le> e" by (simp add: e_def fexp_ge)
  have y: "rndv x = of_int m * P" by (simp add: rndv_def m_def P_def e_def)
  have "\<bar>x\<bar> < 2 powi (e + 53)" unfolding e_def by (rule abs_lt_fexp)
  also have "\<dots> = P * 2 ^ 53" by (simp add: two_powi_add P_def)
  finally have xs: "\<bar>x / P\<bar> < 2 ^ 53" using P0 by (simp add: field_simps abs_mult)
  have "x / P \<le> 2 ^ 53" using xs by linarith
  then have "x / P \<le> of_int (2 ^ 53)" by simp
  then have "rne (x / P) \<le> rne (of_int (2 ^ 53))" by (rule rne_mono)
  then have m_hi: "m \<le> 2 ^ 53" unfolding m_def rne_of_int .
  have "- (2 ^ 53) \<le> x / P" using xs by linarith
  then have "of_int (- (2 ^ 53)) \<le> x / P" by simp
  then have "rne (of_int (- (2 ^ 53))) \<le> rne (x / P)" by (rule rne_mono)
  then have m_lo: "- (2 ^ 53) \<le> m" unfolding m_def rne_of_int .
  show ?thesis
  proof (cases "\<bar>m\<bar> = 2 ^ 53")
    case True
    then have "m = 2 ^ 53 \<or> m = - (2 ^ 53)" by linarith
    then have "m = 2 * 2 ^ 52 \<or> m = 2 * (- (2 ^ 52))" by simp
    then obtain k :: int where "m = 2 * k" by blast
    then have "(of_int m :: rat) = of_int k * 2" by simp
    then have r: "rndv x = of_int k * 2 powi (e + 1)"
      by (simp add: y two_powi_add P_def)
    have "\<bar>rndv x\<bar> = 2 ^ 53 * P" using True P0 by (simp add: y abs_mult flip: of_int_abs)
    also have "\<dots> = 2 powi (e + 53)" by (simp add: two_powi_add P_def)
    also have "\<dots> < 2 powi ((e + 1) + 53)" by (simp add: power_int_strict_increasing)
    finally have "fexp (rndv x) \<le> e + 1" using e_ge by (intro fexp_le) simp_all
    with r show ?thesis by (rule gridI)
  next
    case False
    then have "\<bar>m\<bar> < 2 ^ 53" using m_lo m_hi by linarith
    then have "(of_int \<bar>m\<bar> :: rat) < of_int (2 ^ 53)" by (simp only: of_int_less_iff)
    then have "\<bar>of_int m :: rat\<bar> < 2 ^ 53" by simp
    then have "\<bar>rndv x\<bar> < 2 ^ 53 * P" using P0 by (simp add: y abs_mult)
    also have "\<dots> = 2 powi (e + 53)" by (simp add: two_powi_add P_def)
    finally have "fexp (rndv x) \<le> e" using e_ge by (rule fexp_le)
    with y show ?thesis unfolding P_def by (rule gridI)
  qed
qed

lemma rndv_upper:
  assumes "grid g" and "x \<le> g" and "\<bar>x\<bar> \<le> \<bar>g\<bar>"
  shows "rndv x \<le> g"
proof -
  obtain m :: int where m: "g = of_int m * 2 powi fexp g" using assms(1) by (auto simp add: grid_def)
  have "fexp x \<le> fexp g" using assms(3) by (rule fexp_mono)
  from grid_finer [OF m this] obtain n :: int where n: "g = of_int n * 2 powi fexp x" ..
  show ?thesis using rndv_le_own [of x n] assms(2) n by simp
qed

lemma rndv_lower:
  assumes "grid g" and "0 \<le> g" and "g \<le> x"
  shows "g \<le> rndv x"
proof (cases "fexp x \<le> fexp g")
  case True
  obtain m :: int where m: "g = of_int m * 2 powi fexp g" using assms(1) by (auto simp add: grid_def)
  from grid_finer [OF m True] obtain n :: int where n: "g = of_int n * 2 powi fexp x" ..
  show ?thesis using rndv_ge_own [of n x] assms(3) n by simp
next
  case False
  then have lt: "fexp g < fexp x" by simp
  then have nrm: "- 1074 < fexp x" using fexp_ge [of g] by linarith
  define b where "b = (2::rat) powi (fexp x + 52)"
  have x0: "0 \<le> x" using assms by simp
  have bx: "b \<le> x" using fexp_normal(2) [OF nrm] x0 by (simp add: b_def)
  have "b = of_int (2 ^ 52) * 2 powi fexp x" by (simp add: b_def two_powi_add)
  then have "b \<le> rndv x" using rndv_ge_own [of "2 ^ 52" x] bx by simp
  moreover have "g < b"
  proof -
    have "g < 2 powi (fexp g + 53)" using abs_lt_fexp [of g] by linarith
    also have "\<dots> \<le> b" unfolding b_def using lt by (simp add: two_powi_le_iff)
    finally show ?thesis .
  qed
  ultimately show ?thesis by simp
qed

lemma rndv_0 [simp]: "rndv 0 = 0"
  by (simp add: rndv_exact)

lemma rndv_nonneg: "0 \<le> x \<Longrightarrow> 0 \<le> rndv x"
  by (rule rndv_lower) simp_all

lemma rndv_mono:
  assumes "0 \<le> x" and "x \<le> y"
  shows "rndv x \<le> rndv y"
proof (cases "fexp x = fexp y")
  case True
  have "x / 2 powi fexp y \<le> y / 2 powi fexp y" using assms(2) by (simp add: divide_right_mono)
  then have "rne (x / 2 powi fexp y) \<le> rne (y / 2 powi fexp y)" by (rule rne_mono)
  then have "(of_int (rne (x / 2 powi fexp y)) :: rat) \<le> of_int (rne (y / 2 powi fexp y))"
    by simp
  then show ?thesis unfolding rndv_def True by (simp add: mult_right_mono)
next
  case False
  have "fexp x \<le> fexp y" using assms by (intro fexp_mono) simp
  with False have lt: "fexp x < fexp y" by simp
  then have nrm: "- 1074 < fexp y" using fexp_ge [of x] by linarith
  define b where "b = (2::rat) powi (fexp y + 52)"
  have y0: "0 \<le> y" using assms by simp
  have b0: "0 \<le> b" by (simp add: b_def)
  have bY: "b \<le> y" using fexp_normal(2) [OF nrm] y0 by (simp add: b_def)
  have gb: "grid b" unfolding b_def using fexp_ge [of y] by (intro grid_two_powi) simp
  have "x < 2 powi (fexp x + 53)" using abs_lt_fexp [of x] by linarith
  also have "\<dots> \<le> b" unfolding b_def using lt by (simp add: two_powi_le_iff)
  finally have xb: "x \<le> b" by simp
  have "rndv x \<le> b" using gb xb assms(1) b0 by (intro rndv_upper) simp_all
  moreover have "b \<le> rndv y" using gb b0 bY by (rule rndv_lower)
  ultimately show ?thesis by simp
qed

subsection \<open>Rounding a given number\<close>

lemma rndv_eqI:
  assumes "2 powi k \<le> \<bar>x\<bar>" and "\<bar>x\<bar> < 2 powi (k + 1)"
    and "e = max (k - 52) (- 1074)"
    and "\<bar>x / 2 powi e - of_int m\<bar> < 1 / 2"
  shows "rndv x = of_int m * 2 powi e"
proof -
  have k: "ilog2 \<bar>x\<bar> = k" using assms(1,2) by (rule ilog2_unique)
  have "0 < (2::rat) powi k" by simp
  then have "0 < \<bar>x\<bar>" using assms(1) by linarith
  then have "x \<noteq> 0" by simp
  then have "fexp x = e" by (simp add: fexp_def k assms(3))
  then show ?thesis using rne_nearest [OF assms(4)] by (simp add: rndv_def)
qed

lemma rnd_eqI:
  assumes "2 powi k \<le> \<bar>x\<bar>" and "\<bar>x\<bar> < 2 powi (k + 1)"
    and "e = max (k - 52) (- 1074)"
    and "\<bar>x / 2 powi e - of_int m\<bar> < 1 / 2"
    and "y = of_int m * 2 powi e"
    and "\<bar>y\<bar> < 2 ^ 1024"
  shows "rnd x = Fin y"
proof -
  have "rndv x = y" using rndv_eqI [OF assms(1-4)] assms(5) by simp
  then show ?thesis using assms(6) by (simp add: rnd_def Let_def abs_less_iff)
qed



subsection \<open>Finite results and the neighbourhood of one\<close>

lemma rnd_eq_Fin: "\<bar>rndv x\<bar> < 2 ^ 1024 \<Longrightarrow> rnd x = Fin (rndv x)"
  by (simp add: rnd_def Let_def abs_less_iff)

lemma rnd_FinD:
  assumes "rnd x = Fin y"
  shows "y = rndv x" and "\<bar>y\<bar> < 2 ^ 1024"
  using assms by (auto simp add: rnd_def Let_def abs_less_iff split: if_splits)

lemma is_double_iff: "is_double x \<longleftrightarrow> grid x \<and> \<bar>x\<bar> < 2 ^ 1024"
proof
  assume "is_double x"
  then have r: "rnd x = Fin x" by (simp add: is_double_def)
  from rnd_FinD [OF r] have "x = rndv x" and b: "\<bar>x\<bar> < 2 ^ 1024" by simp_all
  then have "grid x" using rndv_grid [of x] by simp
  with b show "grid x \<and> \<bar>x\<bar> < 2 ^ 1024" by simp
next
  assume "grid x \<and> \<bar>x\<bar> < 2 ^ 1024"
  then show "is_double x" by (simp add: is_double_def rnd_eq_Fin rndv_exact)
qed

lemma rnd_is_double: "rnd x = Fin y \<Longrightarrow> is_double y"
  using rnd_FinD [of x y] rndv_grid [of x] by (simp add: is_double_iff)

lemma grid_1 [simp]: "grid 1"
  using grid_two_powi [of 0] by simp

lemma rnd_bounded:
  assumes "0 \<le> x" and "x \<le> b" and "grid b" and "b < 2 ^ 1024"
  shows "rnd x = Fin (rndv x)" and "0 \<le> rndv x" and "rndv x \<le> b"
proof -
  show lo: "0 \<le> rndv x" using assms(1) by (rule rndv_nonneg)
  show hi: "rndv x \<le> b" using assms by (intro rndv_upper) simp_all
  show "rnd x = Fin (rndv x)" using lo hi assms(4) by (intro rnd_eq_Fin) simp
qed

lemma rne_ge_half:
  assumes "of_int n - 1 / 2 \<le> x" and "even n"
  shows "n \<le> rne x"
proof (cases "of_int n \<le> x")
  case True
  then have "rne (of_int n) \<le> rne x" by (rule rne_mono)
  then show ?thesis by simp
next
  case False
  then have "of_int (n - 1) \<le> x" "x < of_int (n - 1) + 1" using assms(1) by simp_all
  then have f: "\<lfloor>x\<rfloor> = n - 1" by (rule floor_unique)
  have "1 / 2 \<le> x - of_int (n - 1)" using assms(1) by simp
  then show ?thesis using f assms(2) by (simp add: rne_def Let_def)
qed

lemma rne_le_half:
  assumes "x \<le> of_int n + 1 / 2" and "even n"
  shows "rne x \<le> n"
proof (cases "x < of_int n")
  case True
  then have "rne x \<le> rne (of_int n)" by (intro rne_mono) simp
  then show ?thesis by simp
next
  case False
  then have "of_int n \<le> x" "x < of_int n + 1" using assms(1) by simp_all
  then have f: "\<lfloor>x\<rfloor> = n" by (rule floor_unique)
  have "x - of_int n \<le> 1 / 2" using assms(1) by simp
  then show ?thesis using f assms(2) by (simp add: rne_def Let_def)
qed

lemma rne_lt_half:
  assumes "x < of_int n + 1 / 2"
  shows "rne x \<le> n"
proof (cases "x < of_int n")
  case True
  then have "rne x \<le> rne (of_int n)" by (intro rne_mono) simp
  then show ?thesis by simp
next
  case False
  then have "of_int n \<le> x" "x < of_int n + 1" using assms(1) by simp_all
  then have f: "\<lfloor>x\<rfloor> = n" by (rule floor_unique)
  have "x - of_int n < 1 / 2" using assms(1) by simp
  then show ?thesis using f by (simp add: rne_def Let_def)
qed

lemma rndv_to_one:
  assumes "1 - 1 / 2 ^ 54 \<le> t" and "t \<le> 1 + 1 / 2 ^ 53"
  shows "rndv t = 1"
proof (cases "t < 1")
  case True
  have "ilog2 \<bar>t\<bar> = - 1" using True assms(1) by (intro ilog2_unique) simp_all
  moreover have "t \<noteq> 0" using assms(1) by auto
  ultimately have e: "fexp t = - 53" by (simp add: fexp_def)
  have "of_int (2 ^ 53) - 1 / 2 \<le> t / 2 powi (- 53)" using assms(1) by simp
  then have "2 ^ 53 \<le> rne (t / 2 powi (- 53))" by (rule rne_ge_half) simp
  moreover have "t / 2 powi (- 53) \<le> of_int (2 ^ 53)" using True by simp
  then have "rne (t / 2 powi (- 53)) \<le> rne (of_int (2 ^ 53))" by (rule rne_mono)
  then have "rne (t / 2 powi (- 53)) \<le> 2 ^ 53" by (simp only: rne_of_int)
  ultimately have "rne (t / 2 powi (- 53)) = 2 ^ 53" by simp
  then show ?thesis by (simp add: rndv_def e)
next
  case False
  then have t1: "1 \<le> t" by simp
  have "ilog2 \<bar>t\<bar> = 0" using t1 assms(2) by (intro ilog2_unique) simp_all
  moreover have "t \<noteq> 0" using t1 by auto
  ultimately have e: "fexp t = - 52" by (simp add: fexp_def)
  have "t / 2 powi (- 52) \<le> of_int (2 ^ 52) + 1 / 2" using assms(2) by simp
  then have "rne (t / 2 powi (- 52)) \<le> 2 ^ 52" by (rule rne_le_half) simp
  moreover have "of_int (2 ^ 52) \<le> t / 2 powi (- 52)" using t1 by simp
  then have "rne (of_int (2 ^ 52)) \<le> rne (t / 2 powi (- 52))" by (rule rne_mono)
  then have "2 ^ 52 \<le> rne (t / 2 powi (- 52))" by (simp only: rne_of_int)
  ultimately have "rne (t / 2 powi (- 52)) = 2 ^ 52" by simp
  then show ?thesis by (simp add: rndv_def e)
qed

section \<open>Properties of the operators\<close>




section \<open>Evaluating \<^verbatim>\<open>calculate_speedup\<close>\<close>

lemma float_of_int_InrD:
  assumes "float_of_int p = Inr b"
  shows "b = Fin (rndv (of_int p))" and "\<bar>rndv (of_int p)\<bar> < 2 ^ 1024"
proof -
  from assms obtain y where y: "rnd (of_int p) = Fin y" and b: "b = Fin y"
    by (auto simp add: float_of_int_def split: pyfloat.splits)
  from rnd_FinD [OF y] b show "b = Fin (rndv (of_int p))" and "\<bar>rndv (of_int p)\<bar> < 2 ^ 1024"
    by simp_all
qed

lemma float_of_int_pos:
  assumes "1 \<le> p" and "float_of_int p = Inr (Fin ph)"
  shows "ph = rndv (of_int p)" and "1 \<le> ph" and "ph < 2 ^ 1024" and "grid ph"
proof -
  from float_of_int_InrD [OF assms(2)]
  show ph: "ph = rndv (of_int p)" and "ph < 2 ^ 1024" by simp_all
  have "(1::rat) \<le> of_int p" using assms(1) by simp
  then have "1 \<le> rndv (of_int p)" by (intro rndv_lower) simp_all
  then show "1 \<le> ph" by (simp add: ph)
  show "grid ph" unfolding ph by (rule rndv_grid)
qed

lemma one_minus:
  assumes "0 \<le> x" and "x \<le> 1"
  shows "fsub (Fin 1) (Fin x) = Fin (rndv (1 - x))"
    and "0 \<le> rndv (1 - x)" and "rndv (1 - x) \<le> 1"
proof -
  have a: "0 \<le> 1 - x" "1 - x \<le> 1" using assms by simp_all
  from rnd_bounded [OF a grid_1]
  show "0 \<le> rndv (1 - x)" and "rndv (1 - x) \<le> 1" and "fsub (Fin 1) (Fin x) = Fin (rndv (1 - x))"
    by (simp_all add: fsub_def)
qed

lemma quotient_bounds:
  assumes "0 \<le> a" and "grid a" and "a \<le> 1" and "1 \<le> ph"
  shows "rnd (a / ph) = Fin (rndv (a / ph))" and "0 \<le> rndv (a / ph)" and "rndv (a / ph) \<le> a"
proof -
  have "0 \<le> a / ph" using assms by simp
  moreover have "a / ph \<le> a / 1" using assms by (intro divide_left_mono) simp_all
  then have "a / ph \<le> a" by simp
  moreover have "a < 2 ^ 1024" using assms(3) by (rule le_less_trans) simp
  ultimately have b: "0 \<le> a / ph" "a / ph \<le> a" "a < 2 ^ 1024" by simp_all
  from rnd_bounded [OF b(1,2) assms(2) b(3)]
  show "rnd (a / ph) = Fin (rndv (a / ph))" and "0 \<le> rndv (a / ph)"
    and "rndv (a / ph) \<le> a" by simp_all
qed

lemma rndv_near_one:
  assumes "0 \<le> t" and "t \<le> 1 + 1 / 2 ^ 54"
  shows "rndv t \<le> 1"
proof (cases "t \<le> 1")
  case True
  then show ?thesis using assms(1) by (intro rndv_upper) simp_all
next
  case False
  then have "rndv t = 1" using assms(2) by (intro rndv_to_one) simp_all
  then show ?thesis by simp
qed

lemma denominator_le_one:
  assumes "0 \<le> x" and "x < 1" and "1 \<le> ph"
  shows "denominator x ph \<le> 1"
proof -
  define a where "a = rndv (1 - x)"
  define q where "q = rndv (a / ph)"
  have a: "0 \<le> a" "a \<le> 1" using one_minus(2,3) [of x] assms by (simp_all add: a_def)
  have ga: "grid a" unfolding a_def by (rule rndv_grid)
  have q: "0 \<le> q" "q \<le> a" using quotient_bounds(2,3) [OF a(1) ga a(2) assms(3)]
    by (simp_all add: q_def)
  have "a \<le> 1 - x + 1 / 2 ^ 54"
  proof (cases "x = 0")
    case True
    then show ?thesis using a(2) by simp
  next
    case False
    then have "\<bar>1 - x\<bar> < 2 powi (- 53 + 53)" using assms by simp
    then have "fexp (1 - x) \<le> - 53" by (rule fexp_le) simp
    then have "(2::rat) powi fexp (1 - x) \<le> 2 powi (- 53)" by (simp only: two_powi_le_iff)
    then have "\<bar>a - (1 - x)\<bar> \<le> 2 powi (- 53) / 2"
      using rndv_err [of "1 - x"] unfolding a_def by linarith
    moreover have "(2::rat) powi (- 53) / 2 = 1 / 2 ^ 54" by simp
    ultimately show ?thesis by linarith
  qed
  then have "x + q \<le> 1 + 1 / 2 ^ 54" using q by linarith
  moreover have "0 \<le> x + q" using assms(1) q(1) by simp
  ultimately have "rndv (x + q) \<le> 1" by (intro rndv_near_one)
  then show ?thesis by (simp add: denominator_def a_def q_def)
qed

lemma denominator_pos:
  assumes "grid x" and "0 \<le> x" and "x < 1" and "1 \<le> ph" and "ph < 2 ^ 1024"
  shows "0 < denominator x ph"
proof -
  define a where "a = rndv (1 - x)"
  define q where "q = rndv (a / ph)"
  have a: "0 \<le> a" "a \<le> 1" using one_minus(2,3) [of x] assms by (simp_all add: a_def)
  have ga: "grid a" unfolding a_def by (rule rndv_grid)
  have q: "0 \<le> q" "q \<le> a" using quotient_bounds(2,3) [OF a(1) ga a(2) assms(4)]
    by (simp_all add: q_def)
  have d: "denominator x ph = rndv (x + q)" by (simp add: denominator_def a_def q_def)
  show ?thesis
  proof (cases "x = 0")
    case True
    then have "a = 1" by (simp add: a_def rndv_exact)
    have "(2::rat) powi (- 1024) \<le> 1 / ph" using assms(4,5) by (simp add: field_simps)
    then have "2 powi (- 1024) \<le> q" unfolding q_def \<open>a = 1\<close>
      by (intro rndv_lower grid_two_powi) simp_all
    moreover have "rndv (x + q) = q" using True by (simp add: q_def rndv_exact rndv_grid)
    moreover have "0 < (2::rat) powi (- 1024)" by simp
    ultimately show ?thesis unfolding d by linarith
  next
    case False
    then have "0 < x" using assms(2) by simp
    moreover have "x \<le> rndv (x + q)" using assms(1,2) q(1) by (intro rndv_lower) simp_all
    ultimately show ?thesis unfolding d by linarith
  qed
qed

lemma speedup_eval:
  assumes "is_double x" and "0 \<le> x" and "x < 1" and "1 \<le> p"
    and "float_of_int p = Inr (Fin ph)"
  shows "calculate_speedup (Fin x) p = Inr (rnd (1 / denominator x ph))"
proof -
  note ph = float_of_int_pos [OF assms(4,5)]
  have gx: "grid x" using assms(1) by (simp add: is_double_iff)
  define a where "a = rndv (1 - x)"
  define q where "q = rndv (a / ph)"
  have sub: "fsub (Fin 1) (Fin x) = Fin a" using one_minus(1) [of x] assms by (simp add: a_def)
  have a: "0 \<le> a" "a \<le> 1" using one_minus(2,3) [of x] assms by (simp_all add: a_def)
  have ga: "grid a" unfolding a_def by (rule rndv_grid)
  note qb = quotient_bounds [OF a(1) ga a(2) ph(2)]
  have ph0: "ph \<noteq> 0" using ph(2) by simp
  have quo: "float_truediv_int (Fin a) p = Inr (Fin q)"
    using ph0 qb(1) by (simp add: float_truediv_int_def assms(5) float_truediv_def q_def)
  have "0 \<le> x + q" "x + q \<le> 2" using assms(2,3) qb(2,3) a(2) by (simp_all add: q_def)
  moreover have "grid (2::rat)" using grid_two_powi [of 1] by simp
  ultimately have "rnd (x + q) = Fin (rndv (x + q))" by (rule rnd_bounded) simp
  then have add: "fadd (Fin x) (Fin q) = Fin (denominator x ph)"
    by (simp add: denominator_def a_def q_def)
  have "denominator x ph \<noteq> 0" using denominator_pos [OF gx assms(2,3) ph(2,3)] by simp
  then have "float_truediv (Fin 1) (Fin (denominator x ph)) = Inr (rnd (1 / denominator x ph))"
    by (simp add: float_truediv_def)
  then show ?thesis using assms(2,3,4) sub quo add
    by (simp add: calculate_speedup_def in_unit_def)
qed

subsection \<open>One processor\<close>

lemma in_unit_cases:
  assumes "in_unit f"
  obtains x where "f = Fin x" and "0 \<le> x" and "x \<le> 1"
  using assms by (cases f) (simp_all add: in_unit_def)

lemma rnd_1 [simp]: "rnd 1 = Fin 1"
  by (simp add: rnd_eq_Fin rndv_exact)

lemma float_of_int_1 [simp]: "float_of_int 1 = Inr (Fin 1)"
  by (simp add: float_of_int_def)

lemma denominator_one_proc:
  assumes "0 \<le> x" and "x < 1"
  shows "denominator x 1 = 1"
proof -
  define a where "a = rndv (1 - x)"
  have a1: "a \<le> 1" using one_minus(3) [of x] assms by (simp add: a_def)
  have ra: "rndv a = a" unfolding a_def by (intro rndv_exact rndv_grid)
  have d: "denominator x 1 = rndv (x + a)" by (simp add: denominator_def ra flip: a_def)
  have "\<bar>a - (1 - x)\<bar> \<le> 1 / 2 ^ 54"
  proof (cases "x = 0")
    case True
    then show ?thesis by (simp add: a_def rndv_exact)
  next
    case False
    then have "\<bar>1 - x\<bar> < 2 powi (- 53 + 53)" using assms by simp
    then have "fexp (1 - x) \<le> - 53" by (rule fexp_le) simp
    then have "(2::rat) powi fexp (1 - x) \<le> 2 powi (- 53)" by (simp only: two_powi_le_iff)
    then have "\<bar>a - (1 - x)\<bar> \<le> 2 powi (- 53) / 2"
      using rndv_err [of "1 - x"] unfolding a_def by linarith
    moreover have "(2::rat) powi (- 53) / 2 = 1 / 2 ^ 54" by simp
    ultimately show ?thesis by linarith
  qed
  then have "1 - 1 / 2 ^ 54 \<le> x + a" and "x + a \<le> 1 + 1 / 2 ^ 54" by linarith+
  moreover have "(1::rat) + 1 / 2 ^ 54 \<le> 1 + 1 / 2 ^ 53" by simp
  ultimately have "rndv (x + a) = 1" by (intro rndv_to_one) linarith+
  then show ?thesis by (simp add: d)
qed

lemma rnd_tenth: "rnd (1 / 10) = Fin (3602879701896397 / 36028797018963968)"
  by (rule rnd_eqI [where k = "- 4" and e = "- 56" and m = 7205759403792794]) simp_all

subsection \<open>Converting the processor count\<close>

lemma fexp_top_binade:
  assumes "2 ^ 1023 \<le> x" and "x < 2 ^ 1024"
  shows "fexp x = 971"
proof -
  have "ilog2 \<bar>x\<bar> = 1023" using assms by (intro ilog2_unique) simp_all
  moreover have "x \<noteq> 0" using assms(1) by auto
  ultimately show ?thesis by (simp add: fexp_def)
qed

lemma rndv_int_small:
  assumes "1 \<le> p" and "p < 2 ^ 1024 - 2 ^ 970"
  shows "rndv (of_int p) < 2 ^ 1024"
proof (cases "(of_int p :: rat) < 2 ^ 1023")
  case True
  have "grid (2 powi 1023)" by (rule grid_two_powi) simp
  then have "rndv (of_int p) \<le> 2 powi 1023" using True assms(1) by (intro rndv_upper) simp_all
  also have "(2::rat) powi 1023 < 2 ^ 1024" by simp
  finally show ?thesis .
next
  case False
  then have lo: "(2::rat) ^ 1023 \<le> of_int p" by simp
  have "p \<le> 2 ^ 1024 - 2 ^ 970 - 1" using assms(2) by simp
  then have "(of_int p :: rat) \<le> of_int (2 ^ 1024 - 2 ^ 970 - 1)" by (simp only: of_int_le_iff)
  then have hi: "(of_int p :: rat) \<le> 2 ^ 1024 - 2 ^ 970 - 1" by simp
  then have "(of_int p :: rat) < 2 ^ 1024" by simp
  with lo have e: "fexp (of_int p) = 971" by (rule fexp_top_binade)
  have "of_int p / 2 powi 971 \<le> ((2::rat) ^ 1024 - 2 ^ 970 - 1) / 2 powi 971"
    using hi by (intro divide_right_mono) simp_all
  also have "\<dots> < of_int (2 ^ 53 - 1) + 1 / 2" by simp
  finally have "rne (of_int p / 2 powi 971) \<le> 2 ^ 53 - 1" by (rule rne_lt_half)
  then have "(of_int (rne (of_int p / 2 powi 971)) :: rat) \<le> of_int (2 ^ 53 - 1)"
    by (simp only: of_int_le_iff)
  then have "rndv (of_int p) \<le> of_int (2 ^ 53 - 1) * 2 powi 971"
    unfolding rndv_def e by (intro mult_right_mono) simp_all
  also have "\<dots> < 2 ^ 1024" by simp
  finally show ?thesis .
qed

lemma rndv_int_large:
  assumes "2 ^ 1024 - 2 ^ 970 \<le> p"
  shows "2 ^ 1024 \<le> rndv (of_int p)"
proof (cases "(of_int p :: rat) < 2 ^ 1024")
  case True
  have "(of_int (2 ^ 1024 - 2 ^ 970) :: rat) \<le> of_int p" using assms by (simp only: of_int_le_iff)
  then have lo: "(2::rat) ^ 1024 - 2 ^ 970 \<le> of_int p" by simp
  then have "(2::rat) ^ 1023 \<le> of_int p" by simp
  then have e: "fexp (of_int p) = 971" using True by (rule fexp_top_binade)
  have "of_int (2 ^ 53) - 1 / 2 = ((2::rat) ^ 1024 - 2 ^ 970) / 2 powi 971" by simp
  also have "\<dots> \<le> of_int p / 2 powi 971" using lo by (intro divide_right_mono) simp_all
  finally have "2 ^ 53 \<le> rne (of_int p / 2 powi 971)" by (rule rne_ge_half) simp
  then have "(of_int (2 ^ 53) :: rat) \<le> of_int (rne (of_int p / 2 powi 971))"
    by (simp only: of_int_le_iff)
  then have "of_int (2 ^ 53) * 2 powi 971 \<le> rndv (of_int p)"
    unfolding rndv_def e by (intro mult_right_mono) simp_all
  then show ?thesis by simp
next
  case False
  have "grid (2 powi 1024)" by (rule grid_two_powi) simp
  then have "2 powi 1024 \<le> rndv (of_int p)" using False by (intro rndv_lower) simp_all
  then show ?thesis by simp
qed

lemma float_of_int_range:
  assumes "1 \<le> p"
  shows "float_of_int p =
    (if p < 2 ^ 1024 - 2 ^ 970 then Inr (Fin (rndv (of_int p))) else Inl OverflowError)"
proof (cases "p < 2 ^ 1024 - 2 ^ 970")
  case True
  have "0 \<le> rndv (of_int p)" using assms by (intro rndv_nonneg) simp
  then have "\<bar>rndv (of_int p)\<bar> < 2 ^ 1024" using rndv_int_small [OF assms True] by simp
  then show ?thesis using True by (simp add: float_of_int_def rnd_eq_Fin)
next
  case False
  then have "2 ^ 1024 \<le> rndv (of_int p)" by (intro rndv_int_large) simp
  then show ?thesis using False by (simp add: float_of_int_def rnd_def)
qed

lemma speedup_not_small:
  assumes "0 < d" and "d \<le> 1"
  shows "rnd (1 / d) = PInf \<or> (\<exists>s. rnd (1 / d) = Fin s \<and> 1 \<le> s \<and> is_double s)"
proof -
  have "grid 1" by simp
  moreover have "1 \<le> 1 / d" using assms by simp
  ultimately have r: "1 \<le> rndv (1 / d)" by (intro rndv_lower) simp_all
  show ?thesis
  proof (cases "2 ^ 1024 \<le> rndv (1 / d)")
    case True
    then show ?thesis by (simp add: rnd_def)
  next
    case False
    then have "rnd (1 / d) = Fin (rndv (1 / d))" using r by (intro rnd_eq_Fin) simp
    then show ?thesis using r rnd_is_double by auto
  qed
qed

subsection \<open>The formula in IEEE operations\<close>

lemma formula_eval:
  assumes "grid x" and "0 \<le> x" and "x < 1" and "1 \<le> ph" and "ph < 2 ^ 1024"
  shows "fdiv (Fin 1) (fadd (Fin x) (fdiv (fsub (Fin 1) (Fin x)) (Fin ph)))
    = rnd (1 / denominator x ph)"
proof -
  define a where "a = rndv (1 - x)"
  define q where "q = rndv (a / ph)"
  have sub: "fsub (Fin 1) (Fin x) = Fin a" using one_minus(1) [of x] assms by (simp add: a_def)
  have a: "0 \<le> a" "a \<le> 1" using one_minus(2,3) [of x] assms by (simp_all add: a_def)
  have ga: "grid a" unfolding a_def by (rule rndv_grid)
  note qb = quotient_bounds [OF a(1) ga a(2) assms(4)]
  have ph0: "ph \<noteq> 0" using assms(4) by simp
  have quo: "fdiv (Fin a) (Fin ph) = Fin q" using ph0 qb(1) by (simp add: q_def)
  have "0 \<le> x + q" "x + q \<le> 2" using assms(2,3) qb(2,3) a(2) by (simp_all add: q_def)
  moreover have "grid (2::rat)" using grid_two_powi [of 1] by simp
  ultimately have "rnd (x + q) = Fin (rndv (x + q))" by (rule rnd_bounded) simp
  then have add: "fadd (Fin x) (Fin q) = Fin (denominator x ph)"
    by (simp add: denominator_def a_def q_def)
  have "denominator x ph \<noteq> 0" using denominator_pos [OF assms] by simp
  then show ?thesis unfolding sub quo add by simp
qed

lemma speedup_result:
  assumes "is_float f" and "in_unit f" and "1 \<le> p" and "calculate_speedup f p = Inr s"
  shows "s = PInf \<or> (\<exists>y. s = Fin y \<and> 1 \<le> y \<and> is_double y)"
proof -
  from assms(2) obtain x where f: "f = Fin x" and x: "0 \<le> x" "x \<le> 1" by (rule in_unit_cases)
  have dx: "is_double x" using assms(1) by (simp add: f)
  show ?thesis
  proof (cases "x = 1")
    case True
    then have "s = Fin 1" using assms(3,4) by (simp add: f calculate_speedup_def in_unit_def)
    moreover have "is_double 1" by (simp add: is_double_def)
    ultimately show ?thesis by simp
  next
    case False
    then have x1: "x < 1" using x(2) by simp
    show ?thesis
    proof (cases "p < 2 ^ 1024 - 2 ^ 970")
      case True
      define ph :: rat where "ph = rndv (of_int p)"
      have c: "float_of_int p = Inr (Fin ph)"
        using True by (simp add: float_of_int_range [OF assms(3)] ph_def)
      note ph = float_of_int_pos [OF assms(3) c]
      have "calculate_speedup (Fin x) p = Inr (rnd (1 / denominator x ph))"
        using dx x(1) x1 assms(3) c by (rule speedup_eval)
      then have s: "s = rnd (1 / denominator x ph)" using assms(4) by (simp add: f)
      have gx: "grid x" using dx by (simp add: is_double_iff)
      have "0 < denominator x ph" using gx x(1) x1 ph(2,3) by (rule denominator_pos)
      moreover have "denominator x ph \<le> 1" using x(1) x1 ph(2) by (rule denominator_le_one)
      ultimately show ?thesis unfolding s by (rule speedup_not_small)
    next
      case False
      then have "float_of_int p = Inl OverflowError" by (simp add: float_of_int_range [OF assms(3)])
      then have "calculate_speedup f p = Inl OverflowError"
        using x \<open>x \<noteq> 1\<close> assms(3)
        by (simp add: f calculate_speedup_def in_unit_def float_truediv_int_def)
      then show ?thesis using assms(4) by simp
    qed
  qed
qed

section \<open>Evaluation at given inputs\<close>

lemma speedup_concrete:
  assumes "0 \<le> x" and "x < 1" and "1 \<le> p"
    and "rnd (of_int p) = Fin ph" and "ph \<noteq> 0"
    and "rnd (1 - x) = Fin a" and "rnd (a / ph) = Fin q"
    and "rnd (x + q) = Fin d" and "d \<noteq> 0" and "rnd (1 / d) = s"
  shows "calculate_speedup (Fin x) p = Inr s"
  using assms
  by (simp add: calculate_speedup_def in_unit_def float_truediv_int_def float_of_int_def
      float_truediv_def fsub_def)

lemma efficiency_concrete:
  assumes "calculate_speedup f p = Inr (Fin s)"
    and "rnd (of_int p) = Fin ph" and "ph \<noteq> 0" and "rnd (s / ph) = e"
  shows "calculate_efficiency f p = Inr e"
  using assms
  by (simp add: calculate_efficiency_def float_truediv_int_def float_of_int_def float_truediv_def)

lemma time_ratio_concrete:
  assumes "calculate_speedup f p = Inr (Fin s)" and "s \<noteq> 0" and "rnd (1 / s) = r"
  shows "calculate_execution_time_ratio f p = Inr r"
  using assms by (simp add: calculate_execution_time_ratio_def float_truediv_def)

lemma rnd_2 [simp]: "rnd 2 = Fin 2"
  by (rule rnd_eqI [where k = 1 and e = "- 51" and m = "2 ^ 52"]) simp_all

lemma rnd_half: "rnd (1 / 2) = Fin (1 / 2)"
  by (rule rnd_eqI [where k = "- 1" and e = "- 53" and m = 4503599627370496]) simp_all

lemma rnd_quarter: "rnd (1 / 4) = Fin (1 / 4)"
  by (rule rnd_eqI [where k = "- 2" and e = "- 54" and m = 4503599627370496]) simp_all

lemma rnd_three_quarters: "rnd (3 / 4) = Fin (3 / 4)"
  by (rule rnd_eqI [where k = "- 1" and e = "- 53" and m = 6755399441055744]) simp_all

lemma rnd_four_thirds: "rnd (4 / 3) = Fin (6004799503160661 / 4503599627370496)"
  by (rule rnd_eqI [where k = 0 and e = "- 52" and m = 6004799503160661]) simp_all

lemma rnd_two_thirds: "rnd (6004799503160661 / 9007199254740992) = Fin (6004799503160661 / 9007199254740992)"
  by (rule rnd_eqI [where k = "- 1" and e = "- 53" and m = 6004799503160661]) simp_all

lemma rnd_inv_four_thirds: "rnd (4503599627370496 / 6004799503160661) = Fin (3 / 4)"
  by (rule rnd_eqI [where k = "- 1" and e = "- 53" and m = 6755399441055744]) simp_all

lemma speedup_half_two:
  "calculate_speedup (Fin (1 / 2)) 2 = Inr (Fin (6004799503160661 / 4503599627370496))"
  by (rule speedup_concrete [where ph = 2 and a = "1 / 2" and q = "1 / 4" and d = "3 / 4"])
    (simp_all add: rnd_half rnd_quarter rnd_three_quarters rnd_four_thirds)

section \<open>The arrays of \<^verbatim>\<open>simulate_scaling\<close>\<close>

lemma sint_count:
  assumes "1 \<le> k" and "k < 2 ^ 31"
  shows "sint (word_of_int k :: 32 word) = k"
  using assms by (simp add: sint_sbintrunc' signed_take_bit_int_eq_self)

lemma astype_count:
  assumes "1 \<le> k" and "k < 2 ^ 31"
  shows "astype_float64 (word_of_int k) = Fin (of_int k)"
  using sint_count [OF assms] by (simp add: astype_float64_def)

lemma rndv_int_exact:
  assumes "\<bar>n\<bar> < 2 ^ 53"
  shows "rndv (of_int n) = of_int n"
proof -
  have "(of_int \<bar>n\<bar> :: rat) < of_int (2 ^ 53)" using assms by (simp only: of_int_less_iff)
  then have "\<bar>of_int n :: rat\<bar> < 2 powi (0 + 53)" by simp
  then have "fexp (of_int n) \<le> 0" by (rule fexp_le) simp
  moreover have "(of_int n :: rat) = of_int n * 2 powi 0" by simp
  ultimately have "grid (of_int n)" by (rule gridI [rotated])
  then show ?thesis by (rule rndv_exact)
qed

lemma float_of_int_small:
  assumes "1 \<le> p" and "p < 2 ^ 53"
  shows "float_of_int p = Inr (Fin (of_int p))"
proof -
  have "p < 2 ^ 1024 - 2 ^ 970" using assms(2) by simp
  moreover have "rndv (of_int p) = (of_int p :: rat)" using assms by (intro rndv_int_exact) simp
  ultimately show ?thesis by (simp add: float_of_int_range [OF assms(1)])
qed

lemma denominator_lower:
  assumes "grid x" and "0 \<le> x" and "x < 1" and "1 \<le> ph" and "ph \<le> 2 ^ 31"
  shows "2 powi (- 32) \<le> denominator x ph"
proof -
  define a where "a = rndv (1 - x)"
  define q where "q = rndv (a / ph)"
  have a: "0 \<le> a" "a \<le> 1" using one_minus(2,3) [of x] assms by (simp_all add: a_def)
  have ga: "grid a" unfolding a_def by (rule rndv_grid)
  have q: "0 \<le> q" using quotient_bounds(2) [OF a(1) ga a(2) assms(4)] by (simp add: q_def)
  have d: "denominator x ph = rndv (x + q)" by (simp add: denominator_def a_def q_def)
  have g32: "grid (2 powi (- 32))" by (rule grid_two_powi) simp
  have "2 powi (- 32) \<le> x + q"
  proof (cases "1 / 2 \<le> x")
    case True
    have "(2::rat) powi (- 32) \<le> 1 / 2" by simp
    then show ?thesis using True q by linarith
  next
    case False
    have "grid (2 powi (- 1))" by (rule grid_two_powi) simp
    moreover have "(2::rat) powi (- 1) \<le> 1 - x" using False by simp
    ultimately have "2 powi (- 1) \<le> a" unfolding a_def by (intro rndv_lower) simp_all
    then have ah: "1 / 2 \<le> a" by simp
    have "(1 / 2) / 2 ^ 31 \<le> a / 2 ^ 31" using ah by (intro divide_right_mono) simp_all
    also have "\<dots> \<le> a / ph" using assms(4,5) a(1) by (intro divide_left_mono) simp_all
    finally have "(2::rat) powi (- 32) \<le> a / ph" by simp
    then have "2 powi (- 32) \<le> q" unfolding q_def using g32 by (intro rndv_lower) simp_all
    then show ?thesis using assms(2) by linarith
  qed
  then show ?thesis unfolding d using g32 by (intro rndv_lower) simp_all
qed

lemma rnd_inverse_bounded:
  assumes "2 powi (- 32) \<le> d" and "d \<le> 1"
  shows "rnd (1 / d) = Fin (rndv (1 / d))" and "1 \<le> rndv (1 / d)" and "rndv (1 / d) \<le> 2 ^ 32"
proof -
  have d0: "0 < d" using assms(1) by (rule less_le_trans [rotated]) simp
  have "1 / d \<le> 1 / 2 powi (- 32)" using assms(1) by (intro divide_left_mono) simp_all
  then have hi: "1 / d \<le> 2 powi 32" by simp
  have lo: "1 \<le> 1 / d" using d0 assms(2) by simp
  have g: "grid (2 powi 32)" by (rule grid_two_powi) simp
  have "rndv (1 / d) \<le> 2 powi 32" using g hi lo by (intro rndv_upper) simp_all
  then show u: "rndv (1 / d) \<le> 2 ^ 32" by simp
  show l: "1 \<le> rndv (1 / d)" using lo by (intro rndv_lower) simp_all
  have "(2::rat) ^ 32 < 2 ^ 1024" by simp
  then show "rnd (1 / d) = Fin (rndv (1 / d))" using u l by (intro rnd_eq_Fin) linarith
qed

lemma efficiency_eval:
  assumes "calculate_speedup f p = Inr s" and "float_of_int p = Inr (Fin ph)" and "ph \<noteq> 0"
  shows "calculate_efficiency f p = Inr (fdiv s (Fin ph))"
  using assms by (simp add: calculate_efficiency_def float_truediv_int_def float_truediv_def)

lemma time_ratio_eval:
  assumes "calculate_speedup f p = Inr s" and "s \<noteq> Fin 0"
  shows "calculate_execution_time_ratio f p = Inr (fdiv (Fin 1) s)"
  using assms by (simp add: calculate_execution_time_ratio_def float_truediv_def)

lemma scalar_calls:
  assumes "is_float f" and "in_unit f" and "1 \<le> p" and "p < 2 ^ 31"
  obtains s e t where
    "calculate_speedup f p = Inr (Fin s)"
    "calculate_efficiency f p = Inr (Fin e)"
    "calculate_execution_time_ratio f p = Inr (Fin t)"
    "(if f = Fin 1 then Fin 1
      else fdiv (Fin 1) (fadd f (fdiv (fsub (Fin 1) f) (Fin (of_int p))))) = Fin s"
    "fdiv (Fin s) (Fin (of_int p)) = Fin e"
    "fdiv (Fin 1) (Fin s) = Fin t"
    "1 \<le> s" "s \<le> 2 ^ 32"
proof -
  from assms(2) obtain x where f: "f = Fin x" and x: "0 \<le> x" "x \<le> 1" by (rule in_unit_cases)
  have dx: "is_double x" using assms(1) by (simp add: f)
  have gx: "grid x" using dx by (simp add: is_double_iff)
  define ph :: rat where "ph = of_int p"
  have ph: "1 \<le> ph" "ph \<le> 2 ^ 31" "ph < 2 ^ 1024" "ph \<noteq> 0"
  proof -
    show "1 \<le> ph" using assms(3) by (simp add: ph_def)
    have "(of_int p :: rat) \<le> of_int (2 ^ 31)" using assms(4) by (simp only: of_int_le_iff)
    then show "ph \<le> 2 ^ 31" by (simp add: ph_def)
    then show "ph < 2 ^ 1024" by (rule le_less_trans) simp
    show "ph \<noteq> 0" using \<open>1 \<le> ph\<close> by simp
  qed
  have c: "float_of_int p = Inr (Fin ph)"
    unfolding ph_def using assms(3,4) by (intro float_of_int_small) simp_all
  obtain s where sp: "calculate_speedup f p = Inr (Fin s)"
    and el: "(if f = Fin 1 then Fin 1
      else fdiv (Fin 1) (fadd f (fdiv (fsub (Fin 1) f) (Fin ph)))) = Fin s"
    and s: "1 \<le> s" "s \<le> 2 ^ 32"
  proof (cases "x = 1")
    case True
    have "calculate_speedup f p = Inr (Fin 1)"
      using True assms(3) by (simp add: f calculate_speedup_def in_unit_def)
    then show ?thesis using True that [of 1] by (simp add: f)
  next
    case False
    then have x1: "x < 1" using x(2) by simp
    define d where "d = denominator x ph"
    have dl: "2 powi (- 32) \<le> d" unfolding d_def using gx x(1) x1 ph(1,2) by (rule denominator_lower)
    have du: "d \<le> 1" unfolding d_def using x(1) x1 ph(1) by (rule denominator_le_one)
    note r = rnd_inverse_bounded [OF dl du]
    have "calculate_speedup (Fin x) p = Inr (rnd (1 / d))"
      unfolding d_def using dx x(1) x1 assms(3) c by (rule speedup_eval)
    then have 1: "calculate_speedup f p = Inr (Fin (rndv (1 / d)))" by (simp add: f r(1))
    have "fdiv (Fin 1) (fadd (Fin x) (fdiv (fsub (Fin 1) (Fin x)) (Fin ph))) = rnd (1 / d)"
      unfolding d_def using gx x(1) x1 ph(1,3) by (rule formula_eval)
    then have 2: "(if f = Fin 1 then Fin 1
      else fdiv (Fin 1) (fadd f (fdiv (fsub (Fin 1) f) (Fin ph)))) = Fin (rndv (1 / d))"
      using False by (simp add: f r(1))
    from 1 2 r(2,3) show ?thesis by (rule that)
  qed
  have s0: "0 < s" using s(1) by simp
  have g32: "grid (2 powi 32)" by (rule grid_two_powi) simp
  have "0 \<le> s / ph" using s0 ph(1) by simp
  moreover have "s / ph \<le> s / 1" using s0 ph(1) by (intro divide_left_mono) simp_all
  then have "s / ph \<le> 2 powi 32" using s(2) by simp
  moreover have "(2::rat) powi 32 < 2 ^ 1024" by simp
  ultimately have "rnd (s / ph) = Fin (rndv (s / ph))" using g32 by (intro rnd_bounded(1))
  then have e1: "fdiv (Fin s) (Fin ph) = Fin (rndv (s / ph))" using ph(4) by simp
  have "0 \<le> 1 / s" "1 / s \<le> 1" using s0 s(1) by simp_all
  then have "rnd (1 / s) = Fin (rndv (1 / s))" by (intro rnd_bounded(1) [of _ 1]) simp_all
  then have t1: "fdiv (Fin 1) (Fin s) = Fin (rndv (1 / s))" using s0 by simp
  have "calculate_efficiency f p = Inr (fdiv (Fin s) (Fin ph))"
    using sp c ph(4) by (rule efficiency_eval)
  then have e2: "calculate_efficiency f p = Inr (Fin (rndv (s / ph)))" by (simp only: e1)
  have "calculate_execution_time_ratio f p = Inr (fdiv (Fin 1) (Fin s))"
    using sp s0 by (intro time_ratio_eval) simp_all
  then have t2: "calculate_execution_time_ratio f p = Inr (Fin (rndv (1 / s)))" by (simp only: t1)
  from sp e2 t2 el e1 t1 s show ?thesis unfolding ph_def by (rule that)
qed

lemma arange_counts:
  assumes "1 \<le> n" and "n < 2 ^ 61"
  shows "np_arange_int32 1 (n + 1) = Inr (counts n)"
proof -
  have "n \<le> 2 ^ 61" using assms(2) by simp
  then have "(of_int n :: rat) \<le> of_int (2 ^ 61)" by (simp only: of_int_le_iff)
  then have le: "(of_int n :: rat) \<le> 2 powi 61" by simp
  have "(0::rat) \<le> of_int n" using assms(1) by simp
  moreover have "grid (2 powi 61)" by (rule grid_two_powi) simp
  moreover have "(2::rat) powi 61 < 2 ^ 1024" by simp
  ultimately have r: "rnd (of_int n) = Fin (rndv (of_int n))" and u: "rndv (of_int n) \<le> 2 powi 61"
    and l: "0 \<le> rndv (of_int n)"
    using le rnd_bounded [of "of_int n" "2 powi 61"] by simp_all
  have "(2::rat) powi 61 < 2 ^ 63" by simp
  then have "rndv (of_int n) < 2 ^ 63" using u by linarith
  then show ?thesis using assms r l
    by (simp add: np_arange_int32_def counts_def)
qed

lemma length_counts: "1 \<le> n \<Longrightarrow> length (counts n) = nat n"
  by (simp add: counts_def)

lemma nth_counts:
  assumes "i < nat n"
  shows "counts n ! i = word_of_int (1 + int i)"
proof -
  have "1 + int i \<le> n" using assms by linarith
  then have "[1..n] ! i = 1 + int i" by (rule nth_upto)
  then show ?thesis using assms by (simp add: counts_def)
qed

lemma simulate_scaling_valid:
  assumes "in_unit f" and "1 \<le> n" and "n < 2 ^ 60"
  shows "simulate_scaling f n = Inr
    \<lparr>processors = counts n,
     speedups = (if f = Fin 1 then replicate (nat n) (Fin 1)
        else map (\<lambda>w. fdiv (Fin 1) (fadd f (fdiv (fsub (Fin 1) f) (astype_float64 w))))
               (counts n)),
     efficiencies = map2 (\<lambda>s w. fdiv s (astype_float64 w))
        (if f = Fin 1 then replicate (nat n) (Fin 1)
         else map (\<lambda>w. fdiv (Fin 1) (fadd f (fdiv (fsub (Fin 1) f) (astype_float64 w))))
                (counts n))
        (counts n),
     time_ratios = map (fdiv (Fin 1))
        (if f = Fin 1 then replicate (nat n) (Fin 1)
         else map (\<lambda>w. fdiv (Fin 1) (fadd f (fdiv (fsub (Fin 1) f) (astype_float64 w))))
                (counts n))\<rparr>"
proof -
  have a: "np_arange_int32 1 (n + 1) = Inr (counts n)" using assms(2,3) by (intro arange_counts) simp_all
  have "nat n < 2 ^ 60" using assms(2,3) by (simp add: nat_less_iff)
  then have b: "np_astype_float64 (counts n) = Inr (map astype_float64 (counts n))"
    using assms(2) by (simp add: np_astype_float64_def length_counts)
  have c: "np_ones n = Inr (replicate (nat n) (Fin 1))" using assms(3) by (simp add: np_ones_def)
  show ?thesis using assms(1,2)
    by (simp add: simulate_scaling_def bind_result_def a b c comp_def)
qed


section \<open>Limits of the arrays, and the recorded operations\<close>






section \<open>The exit status\<close>




section \<open>The claims\<close>







text \<open>
  C1. For every float \<open>f\<close> with \<open>0 \<le> f \<le> 1\<close> and every integer \<open>p \<ge> 1\<close> that Python
  converts to a float, that is \<open>p < 2\<^sup>1\<^sup>0\<^sup>2\<^sup>4 - 2\<^sup>9\<^sup>7\<^sup>0\<close>, \<^verbatim>\<open>calculate_speedup(f, p)\<close> returns
  \<^verbatim>\<open>1.0 / (f + (1 - f) / p)\<close>, evaluated in binary64 and without raising, when \<open>f \<noteq> 1\<close>; it returns
  exactly 1.0 when \<open>f = 1\<close>, for every \<open>p \<ge> 1\<close>, through the special-case branch. For
  \<open>f \<noteq> 1\<close> and a larger \<open>p\<close> the conversion of \<open>p\<close> raises \<^verbatim>\<open>OverflowError\<close>.
\<close>

theorem speedup_formula:
  assumes "is_float f" and "in_unit f" and "1 \<le> p"
  shows "calculate_speedup f p =
    (if f = Fin 1 then Inr (Fin 1)
     else if p < 2 ^ 1024 - 2 ^ 970
       then Inr (fdiv (Fin 1) (fadd f (fdiv (fsub (Fin 1) f) (Fin (rndv (of_int p))))))
       else Inl OverflowError)"
proof -
  from assms(2) obtain x where f: "f = Fin x" and x: "0 \<le> x" "x \<le> 1" by (rule in_unit_cases)
  have dx: "is_double x" using assms(1) by (simp add: f)
  show ?thesis
  proof (cases "x = 1")
    case True
    then show ?thesis using assms(3) by (simp add: f calculate_speedup_def in_unit_def)
  next
    case False
    then have x1: "x < 1" using x(2) by simp
    show ?thesis
    proof (cases "p < 2 ^ 1024 - 2 ^ 970")
      case True
      define ph :: rat where "ph = rndv (of_int p)"
      have c: "float_of_int p = Inr (Fin ph)"
        using True by (simp add: float_of_int_range [OF assms(3)] ph_def)
      note ph = float_of_int_pos [OF assms(3) c]
      have gx: "grid x" using dx by (simp add: is_double_iff)
      have "calculate_speedup (Fin x) p = Inr (rnd (1 / denominator x ph))"
        using dx x(1) x1 assms(3) c by (rule speedup_eval)
      also have "rnd (1 / denominator x ph)
          = fdiv (Fin 1) (fadd (Fin x) (fdiv (fsub (Fin 1) (Fin x)) (Fin ph)))"
        using gx x(1) x1 ph(2,3) by (rule formula_eval [symmetric])
      finally show ?thesis using True False by (simp add: f ph_def)
    next
      case False
      then have "float_of_int p = Inl OverflowError" by (simp add: float_of_int_range [OF assms(3)])
      then have "calculate_speedup f p = Inl OverflowError"
        using x \<open>x \<noteq> 1\<close> assms(3)
        by (simp add: f calculate_speedup_def in_unit_def float_truediv_int_def)
      then show ?thesis using False \<open>x \<noteq> 1\<close> by (simp add: f)
    qed
  qed
qed

theorem speedup_formula_witness:
  "is_float (Fin (1 / 2)) \<and> in_unit (Fin (1 / 2)) \<and> (1::int) \<le> 2
   \<and> calculate_speedup (Fin (1 / 2)) 2 = Inr (Fin (6004799503160661 / 4503599627370496))"
proof -
  have v: "is_float (Fin (1 / 2))" "in_unit (Fin (1 / 2))" "(1::int) \<le> 2"
    by (simp_all add: is_double_def in_unit_def rnd_half)
  have "rndv (of_int 2) = 2" using rnd_FinD(1) [OF rnd_2] by simp
  then have "calculate_speedup (Fin (1 / 2)) 2 = Inr (Fin (6004799503160661 / 4503599627370496))"
    using speedup_formula [OF v]
    by (simp add: fsub_def rnd_half rnd_quarter rnd_three_quarters rnd_four_thirds)
  with v show ?thesis by simp
qed

text \<open>
  The claim for every integer \<open>p \<ge> 1\<close> fails at \<open>f = 0.5\<close>, \<open>p = 2\<^sup>1\<^sup>0\<^sup>2\<^sup>4\<close>: no value is
  returned.
\<close>

theorem speedup_overflow_counterexample:
  "is_float (Fin (1 / 2)) \<and> in_unit (Fin (1 / 2)) \<and> (1::int) \<le> 2 ^ 1024
   \<and> calculate_speedup (Fin (1 / 2)) (2 ^ 1024) = Inl OverflowError"
proof -
  have "float_of_int (2 ^ 1024) = Inl OverflowError"
    by (simp add: float_of_int_range)
  then have "calculate_speedup (Fin (1 / 2)) (2 ^ 1024) = Inl OverflowError"
    by (simp add: calculate_speedup_def in_unit_def float_truediv_int_def)
  moreover have "rnd (1 / 2) = Fin (1 / 2)"
    by (rule rnd_eqI [where k = "- 1" and e = "- 53" and m = "2 ^ 52"]) simp_all
  ultimately show ?thesis by (simp add: in_unit_def is_double_def)
qed

text \<open>
  C5. On a single processor nothing is gained: for every float \<open>f\<close> with \<open>0 \<le> f \<le> 1\<close>,
  \<^verbatim>\<open>calculate_speedup(f, 1)\<close> returns exactly 1.0. The equality is one of binary64 values
  and holds through the three roundings of \<^verbatim>\<open>1 - f\<close>, of the quotient by 1.0 and of the sum.
\<close>

theorem single_processor_speedup:
  assumes "is_float f" and "in_unit f"
  shows "calculate_speedup f 1 = Inr (Fin 1)"
proof -
  from assms(2) obtain x where f: "f = Fin x" and x: "0 \<le> x" "x \<le> 1" by (rule in_unit_cases)
  show ?thesis
  proof (cases "x = 1")
    case True
    then show ?thesis by (simp add: f calculate_speedup_def in_unit_def)
  next
    case False
    then have x1: "x < 1" using x(2) by simp
    have "is_double x" using assms(1) by (simp add: f)
    then have "calculate_speedup (Fin x) 1 = Inr (rnd (1 / denominator x 1))"
      using x(1) x1 by (intro speedup_eval) simp_all
    then show ?thesis by (simp add: f denominator_one_proc [OF x(1) x1])
  qed
qed

theorem single_processor_speedup_witness:
  "is_float (Fin (3602879701896397 / 36028797018963968))
   \<and> in_unit (Fin (3602879701896397 / 36028797018963968))
   \<and> calculate_speedup (Fin (3602879701896397 / 36028797018963968)) 1 = Inr (Fin 1)"
  using single_processor_speedup [of "Fin (3602879701896397 / 36028797018963968)"]
    rnd_is_double [OF rnd_tenth]
  by (simp add: in_unit_def)

text \<open>
  C2. For every float \<open>f\<close> with \<open>0 \<le> f \<le> 1\<close> and every integer \<open>n\<close> with
  \<open>1 \<le> n < 2\<^sup>3\<^sup>1\<close>, \<^verbatim>\<open>simulate_scaling(f, n)\<close> returns four sequences of length \<open>n\<close>,
  with \<^verbatim>\<open>processors[0] == 1\<close> and \<^verbatim>\<open>processors[n-1] == n\<close>, and at every index the speedup, the
  efficiency and the time ratio are finite and are the very values that the scalar functions
  return for \<^verbatim>\<open>processors[i]\<close>: the difference is zero, within any tolerance.
\<close>

theorem scaling_matches_scalar_calls:
  assumes "is_float f" and "in_unit f" and "1 \<le> n" and "n < 2 ^ 31"
  shows "\<exists>r. simulate_scaling f n = Inr r
    \<and> length (processors r) = nat n \<and> length (speedups r) = nat n
    \<and> length (efficiencies r) = nat n \<and> length (time_ratios r) = nat n
    \<and> sint (processors r ! 0) = 1 \<and> sint (processors r ! (nat n - 1)) = n
    \<and> (\<forall>i < nat n. \<exists>s e t.
          speedups r ! i = Fin s \<and> efficiencies r ! i = Fin e \<and> time_ratios r ! i = Fin t
        \<and> calculate_speedup f (sint (processors r ! i)) = Inr (Fin s)
        \<and> calculate_efficiency f (sint (processors r ! i)) = Inr (Fin e)
        \<and> calculate_execution_time_ratio f (sint (processors r ! i)) = Inr (Fin t))"
proof -
  define procs where "procs = counts n"
  define sp where "sp = (if f = Fin 1 then replicate (nat n) (Fin 1)
        else map (\<lambda>w. fdiv (Fin 1) (fadd f (fdiv (fsub (Fin 1) f) (astype_float64 w)))) procs)"
  define ef where "ef = map2 (\<lambda>s w. fdiv s (astype_float64 w)) sp procs"
  define tr where "tr = map (fdiv (Fin 1)) sp"
  define r where "r = \<lparr>processors = procs, speedups = sp, efficiencies = ef, time_ratios = tr\<rparr>"
  have run: "simulate_scaling f n = Inr r"
  proof -
    have "n < 2 ^ 60" using assms(4) by simp
    with assms(2,3) show ?thesis
      unfolding r_def tr_def ef_def sp_def procs_def by (rule simulate_scaling_valid)
  qed
  have lp: "length procs = nat n" unfolding procs_def using assms(3) by (rule length_counts)
  have ls: "length sp = nat n" by (simp add: sp_def lp)
  have le: "length ef = nat n" by (simp add: ef_def lp ls)
  have lt: "length tr = nat n" by (simp add: tr_def ls)
  have elem: "\<exists>s e t. sint (procs ! i) = 1 + int i
        \<and> sp ! i = Fin s \<and> ef ! i = Fin e \<and> tr ! i = Fin t
        \<and> calculate_speedup f (1 + int i) = Inr (Fin s)
        \<and> calculate_efficiency f (1 + int i) = Inr (Fin e)
        \<and> calculate_execution_time_ratio f (1 + int i) = Inr (Fin t)"
    if i: "i < nat n" for i
  proof -
    define p where "p = 1 + int i"
    have p: "1 \<le> p" "p < 2 ^ 31" using i assms(4) by (simp_all add: p_def)
    have w: "procs ! i = word_of_int p" unfolding procs_def p_def using i by (rule nth_counts)
    have as: "astype_float64 (procs ! i) = Fin (of_int p)" unfolding w using p by (rule astype_count)
    have si: "sint (procs ! i) = p" unfolding w using p by (rule sint_count)
    from scalar_calls [OF assms(1,2) p] obtain s e t where
      c: "calculate_speedup f p = Inr (Fin s)"
        "calculate_efficiency f p = Inr (Fin e)"
        "calculate_execution_time_ratio f p = Inr (Fin t)"
      and el: "(if f = Fin 1 then Fin 1
        else fdiv (Fin 1) (fadd f (fdiv (fsub (Fin 1) f) (Fin (of_int p))))) = Fin s"
        "fdiv (Fin s) (Fin (of_int p)) = Fin e"
        "fdiv (Fin 1) (Fin s) = Fin t"
      by blast
    have "sp ! i = (if f = Fin 1 then Fin 1
        else fdiv (Fin 1) (fadd f (fdiv (fsub (Fin 1) f) (astype_float64 (procs ! i)))))"
      using i by (simp add: sp_def lp)
    then have 1: "sp ! i = Fin s" by (simp only: as el(1))
    have "ef ! i = fdiv (sp ! i) (astype_float64 (procs ! i))"
      using i by (simp add: ef_def lp ls)
    then have 2: "ef ! i = Fin e" by (simp only: 1 as el(2))
    have "tr ! i = fdiv (Fin 1) (sp ! i)" using i by (simp add: tr_def ls)
    then have 3: "tr ! i = Fin t" by (simp only: 1 el(3))
    from si 1 2 3 c show ?thesis unfolding p_def by blast
  qed
  have first: "sint (procs ! 0) = 1"
  proof -
    have "0 < nat n" using assms(3) by simp
    from elem [OF this] show ?thesis by auto
  qed
  have last: "sint (procs ! (nat n - 1)) = n"
  proof -
    have "nat n - 1 < nat n" using assms(3) by simp
    from elem [OF this] have "sint (procs ! (nat n - 1)) = 1 + int (nat n - 1)" by auto
    then show ?thesis using assms(3) by simp
  qed
  have all: "\<forall>i < nat n. \<exists>s e t.
          speedups r ! i = Fin s \<and> efficiencies r ! i = Fin e \<and> time_ratios r ! i = Fin t
        \<and> calculate_speedup f (sint (processors r ! i)) = Inr (Fin s)
        \<and> calculate_efficiency f (sint (processors r ! i)) = Inr (Fin e)
        \<and> calculate_execution_time_ratio f (sint (processors r ! i)) = Inr (Fin t)"
  proof (intro allI impI)
    fix i assume "i < nat n"
    from elem [OF this] show "\<exists>s e t.
          speedups r ! i = Fin s \<and> efficiencies r ! i = Fin e \<and> time_ratios r ! i = Fin t
        \<and> calculate_speedup f (sint (processors r ! i)) = Inr (Fin s)
        \<and> calculate_efficiency f (sint (processors r ! i)) = Inr (Fin e)
        \<and> calculate_execution_time_ratio f (sint (processors r ! i)) = Inr (Fin t)"
      by (auto simp add: r_def)
  qed
  show ?thesis
    using run lp ls le lt first last all by (intro exI [of _ r]) (simp add: r_def)
qed

theorem scaling_matches_scalar_calls_witness:
  "is_float (Fin (1 / 2)) \<and> in_unit (Fin (1 / 2)) \<and> (1::int) \<le> 2 \<and> (2::int) < 2 ^ 31
   \<and> (\<exists>r. simulate_scaling (Fin (1 / 2)) 2 = Inr r
        \<and> length (processors r) = 2 \<and> length (speedups r) = 2
        \<and> sint (processors r ! 0) = 1 \<and> sint (processors r ! 1) = 2
        \<and> calculate_speedup (Fin (1 / 2)) (sint (processors r ! 1)) = Inr (speedups r ! 1))"
proof -
  have v: "is_float (Fin (1 / 2))" "in_unit (Fin (1 / 2))" "(1::int) \<le> 2" "(2::int) < 2 ^ 31"
    by (simp_all add: is_double_def in_unit_def rnd_half)
  from scaling_matches_scalar_calls [OF v] obtain r where
    r: "simulate_scaling (Fin (1 / 2)) 2 = Inr r"
      "length (processors r) = nat 2" "length (speedups r) = nat 2"
      "sint (processors r ! 0) = 1" "sint (processors r ! (nat 2 - 1)) = 2"
    and a: "\<forall>i < nat 2. \<exists>s e t.
          speedups r ! i = Fin s \<and> efficiencies r ! i = Fin e \<and> time_ratios r ! i = Fin t
        \<and> calculate_speedup (Fin (1 / 2)) (sint (processors r ! i)) = Inr (Fin s)
        \<and> calculate_efficiency (Fin (1 / 2)) (sint (processors r ! i)) = Inr (Fin e)
        \<and> calculate_execution_time_ratio (Fin (1 / 2)) (sint (processors r ! i)) = Inr (Fin t)"
    by blast
  have "(1::nat) < nat 2" by simp
  with a have "calculate_speedup (Fin (1 / 2)) (sint (processors r ! 1)) = Inr (speedups r ! 1)"
    by fastforce
  moreover have "nat 2 - 1 = (1::nat)" by simp
  ultimately show ?thesis using v r by (intro conjI exI [of _ r]) simp_all
qed

text \<open>
  The cells of \<^verbatim>\<open>processors\<close> are 32 bits wide: for \<open>n = 2\<^sup>3\<^sup>1\<close> the last count is stored as
  \<open>-2\<^sup>3\<^sup>1\<close>, not as \<open>n\<close>.
\<close>

theorem int32_wrap_counterexample:
  "\<not> isl (simulate_scaling (Fin (1 / 2)) (2 ^ 31))
   \<and> length (processors (projr (simulate_scaling (Fin (1 / 2)) (2 ^ 31)))) = 2 ^ 31
   \<and> sint (processors (projr (simulate_scaling (Fin (1 / 2)) (2 ^ 31))) ! (2 ^ 31 - 1))
       = - (2 ^ 31)"
proof -
  have v: "in_unit (Fin (1 / 2))" "(1::int) \<le> 2 ^ 31" by (simp_all add: in_unit_def)
  have "(2::int) ^ 31 < 2 ^ 60" by simp
  note run = simulate_scaling_valid [OF v this]
  have l: "length (counts (2 ^ 31)) = nat (2 ^ 31)"
    by (rule length_counts) simp
  have "(2::nat) ^ 31 - 1 < nat (2 ^ 31)" by simp
  then have "counts (2 ^ 31) ! (2 ^ 31 - 1) = word_of_int (1 + int (2 ^ 31 - 1))"
    by (rule nth_counts)
  then have e: "sint (counts (2 ^ 31) ! (2 ^ 31 - 1)) = - (2 ^ 31)"
    by (simp add: sint_uint)
  show ?thesis unfolding run using l e by simp
qed

text \<open>
  C8. For every float \<open>f\<close> with \<open>0 \<le> f \<le> 1\<close> and every integer \<open>p\<close> with
  \<open>1 \<le> p < 2\<^sup>1\<^sup>0\<^sup>2\<^sup>4 - 2\<^sup>9\<^sup>7\<^sup>0\<close>, the three scalar functions return values,
  \<^verbatim>\<open>calculate_efficiency(f, p)\<close> is the float quotient of the speedup by \<open>p\<close> and
  \<^verbatim>\<open>calculate_execution_time_ratio(f, p)\<close> is the float reciprocal of the speedup. For a larger
  \<open>p\<close> the efficiency raises \<^verbatim>\<open>OverflowError\<close>, also when \<open>f = 1\<close> and the speedup is returned;
  the time ratio is then 1.0 for \<open>f = 1\<close> and raises for every other \<open>f\<close>.
\<close>

theorem efficiency_and_time_ratio:
  assumes "is_float f" and "in_unit f" and "1 \<le> p"
  shows "(p < 2 ^ 1024 - 2 ^ 970 \<longrightarrow>
          (\<exists>s. calculate_speedup f p = Inr s
             \<and> calculate_efficiency f p = Inr (fdiv s (Fin (rndv (of_int p))))
             \<and> calculate_execution_time_ratio f p = Inr (fdiv (Fin 1) s)))
    \<and> (2 ^ 1024 - 2 ^ 970 \<le> p \<longrightarrow>
          calculate_efficiency f p = Inl OverflowError
        \<and> calculate_execution_time_ratio f p
            = (if f = Fin 1 then Inr (Fin 1) else Inl OverflowError))"
proof -
  have nz: "s \<noteq> Fin 0" if "calculate_speedup f p = Inr s" for s
    using speedup_result [OF assms that] by auto
  from assms(2) obtain x where f: "f = Fin x" and x: "0 \<le> x" "x \<le> 1" by (rule in_unit_cases)
  have A: "\<exists>s. calculate_speedup f p = Inr s
             \<and> calculate_efficiency f p = Inr (fdiv s (Fin (rndv (of_int p))))
             \<and> calculate_execution_time_ratio f p = Inr (fdiv (Fin 1) s)"
    if small: "p < 2 ^ 1024 - 2 ^ 970"
  proof -
    have c: "float_of_int p = Inr (Fin (rndv (of_int p)))"
      using small by (simp add: float_of_int_range [OF assms(3)])
    note ph = float_of_int_pos [OF assms(3) c]
    have "\<exists>s. calculate_speedup f p = Inr s"
    proof (cases "x = 1")
      case True
      then show ?thesis using assms(3) by (simp add: f calculate_speedup_def in_unit_def)
    next
      case False
      then have "calculate_speedup (Fin x) p = Inr (rnd (1 / denominator x (rndv (of_int p))))"
        using assms(1,3) x c by (intro speedup_eval) (simp_all add: f)
      then show ?thesis by (simp add: f)
    qed
    then obtain s where s: "calculate_speedup f p = Inr s" ..
    have "rndv (of_int p) \<noteq> (0::rat)" using ph(2) by simp
    with s c have "calculate_efficiency f p = Inr (fdiv s (Fin (rndv (of_int p))))"
      by (rule efficiency_eval)
    moreover have "calculate_execution_time_ratio f p = Inr (fdiv (Fin 1) s)"
      using s nz [OF s] by (rule time_ratio_eval)
    ultimately show ?thesis using s by simp
  qed
  have B: "calculate_efficiency f p = Inl OverflowError
        \<and> calculate_execution_time_ratio f p
            = (if f = Fin 1 then Inr (Fin 1) else Inl OverflowError)"
    if large: "2 ^ 1024 - 2 ^ 970 \<le> p"
  proof -
    have c: "float_of_int p = Inl OverflowError"
      using large by (simp add: float_of_int_range [OF assms(3)])
    show ?thesis
    proof (cases "x = 1")
      case True
      then have "calculate_speedup f p = Inr (Fin 1)"
        using assms(3) by (simp add: f calculate_speedup_def in_unit_def)
      then show ?thesis using True c
        by (simp add: f calculate_efficiency_def calculate_execution_time_ratio_def
            float_truediv_int_def float_truediv_def)
    next
      case False
      then have "calculate_speedup f p = Inl OverflowError"
        using x assms(3) c by (simp add: f calculate_speedup_def in_unit_def float_truediv_int_def)
      then show ?thesis using False
        by (simp add: f calculate_efficiency_def calculate_execution_time_ratio_def)
    qed
  qed
  from A B show ?thesis by blast
qed

theorem efficiency_and_time_ratio_witness:
  "is_float (Fin (1 / 2)) \<and> in_unit (Fin (1 / 2)) \<and> (1::int) \<le> 2
   \<and> calculate_speedup (Fin (1 / 2)) 2 = Inr (Fin (6004799503160661 / 4503599627370496))
   \<and> calculate_efficiency (Fin (1 / 2)) 2 = Inr (Fin (6004799503160661 / 9007199254740992))
   \<and> calculate_execution_time_ratio (Fin (1 / 2)) 2 = Inr (Fin (3 / 4))"
proof -
  have v: "is_float (Fin (1 / 2))" "in_unit (Fin (1 / 2))" "(1::int) \<le> 2"
    by (simp_all add: is_double_def in_unit_def rnd_half)
  have r2: "rndv 2 = 2" using rnd_FinD(1) [OF rnd_2] by simp
  from efficiency_and_time_ratio [OF v] speedup_half_two
  have "calculate_efficiency (Fin (1 / 2)) 2
      = Inr (fdiv (Fin (6004799503160661 / 4503599627370496)) (Fin (rndv (of_int 2))))"
    and "calculate_execution_time_ratio (Fin (1 / 2)) 2
      = Inr (fdiv (Fin 1) (Fin (6004799503160661 / 4503599627370496)))"
    by auto
  then show ?thesis using v speedup_half_two
    by (simp add: r2 rnd_two_thirds rnd_inv_four_thirds)
qed

text \<open>
  At \<open>f = 1.0\<close>, \<open>p = 2\<^sup>1\<^sup>0\<^sup>2\<^sup>4\<close> the speedup is returned and the efficiency is not: it is not the
  quotient of the speedup by \<open>p\<close>.
\<close>

theorem efficiency_overflow_counterexample:
  "is_float (Fin 1) \<and> in_unit (Fin 1) \<and> (1::int) \<le> 2 ^ 1024
   \<and> calculate_speedup (Fin 1) (2 ^ 1024) = Inr (Fin 1)
   \<and> calculate_efficiency (Fin 1) (2 ^ 1024) = Inl OverflowError"
proof -
  have c: "float_of_int (2 ^ 1024) = Inl OverflowError"
    by (simp add: float_of_int_range)
  have s: "calculate_speedup (Fin 1) (2 ^ 1024) = Inr (Fin 1)"
    by (simp add: calculate_speedup_def in_unit_def)
  then have "calculate_efficiency (Fin 1) (2 ^ 1024) = Inl OverflowError"
    using c by (simp add: calculate_efficiency_def float_truediv_int_def)
  with s show ?thesis by (simp add: in_unit_def is_double_def)
qed




end
